theory Spec2Isabelle
  imports Complex_Main "HOL-Library.AList" "HOL-Library.Word"
begin

section \<open>The sprite-sheet slicer \<^verbatim>\<open>philoagents-ui/sclicer.py\<close>\<close>

text \<open>
  The script cuts fixed-size cells out of a sprite sheet, lays them out on a new bitmap
  (the atlas) and writes a JSON manifest that maps a name to the rectangle of each cell.
  Its three functions are \<^verbatim>\<open>slice_frames\<close>, \<^verbatim>\<open>paste_frames_to_atlas\<close> and
  \<^verbatim>\<open>main\<close>. Python integers are unbounded and may be negative, so every number coming
  from the command line is an \<^typ>\<open>int\<close>. Exceptions are values of \<open>py_error\<close>, and a
  function that can raise returns \<open>py_error + 'a\<close>.
\<close>

datatype py_error =
  ZeroDivisionError | ValueError | OverflowError | DecompressionBombError | MemoryError

subsection \<open>The image capability (Pillow)\<close>

text \<open>
  The script uses four operations of the Pillow library on images of mode RGBA:
  \<^verbatim>\<open>Image.new\<close>, \<^verbatim>\<open>Image.crop\<close>, \<^verbatim>\<open>Image.paste\<close> and the size of an image.
  An image is its width, its height and the colour of every pixel; only the pixels with
  \<open>0 \<le> x < width\<close> and \<open>0 \<le> y < height\<close> belong to the image, and \<open>pixel_at\<close>
  is the only way the theorems below look at a pixel.

  \<^item> \<^verbatim>\<open>Image.new(mode, size, color)\<close> checks its size in three steps. A negative
    width or height raises \<^verbatim>\<open>ValueError\<close> (``Width and height must be >= 0'').
    The size is then converted to two C integers, which raises \<^verbatim>\<open>OverflowError\<close>
    for a width or height of \<open>2 ^ 31\<close> or more. Last, a line of more than
    \<open>INT_MAX div 4 - 1 = 536870910\<close> pixels is refused with \<^verbatim>\<open>MemoryError\<close>.
  \<^item> \<^verbatim>\<open>im.crop((left, upper, right, lower))\<close> raises \<^verbatim>\<open>ValueError\<close>
    (``Coordinate 'right' is less than 'left'\,'', ``Coordinate 'lower' is less than
    'upper'\,'') when \<open>right < left\<close> or \<open>lower < upper\<close>, as the current releases of
    Pillow do. It then raises \<^verbatim>\<open>DecompressionBombError\<close> when the box has more than
    \<open>2 * MAX_IMAGE_PIXELS = 178956970\<close> pixels, a side of length 0 counting as 1, and
    \<^verbatim>\<open>OverflowError\<close> when a coordinate of the box is not a C integer. Otherwise the
    result has size \<open>(right - left, lower - upper)\<close>, and the part of the box outside
    the image is filled with zero bytes, which is transparent black in mode RGBA.
  \<^item> \<^verbatim>\<open>dst.paste(src, (x, y))\<close> without a mask copies all four channels of
    \<open>src\<close> over the region of \<open>dst\<close> starting at \<open>(x, y)\<close>, clipped to \<open>dst\<close>.

  What depends on the machine is not modelled: a call that runs out of memory raises
  \<^verbatim>\<open>MemoryError\<close> in Pillow and returns here, and so does a \<^verbatim>\<open>paste\<close> whose
  offsets are no C integers. For this reason every theorem about a result is stated for
  the calls that return.
\<close>

type_synonym rgba = "8 word \<times> 8 word \<times> 8 word \<times> 8 word"

record img =
  im_width :: int
  im_height :: int
  pix :: "int \<Rightarrow> int \<Rightarrow> rgba"

type_synonym box = "int \<times> int \<times> int \<times> int"

definition in_bounds :: "img \<Rightarrow> int \<Rightarrow> int \<Rightarrow> bool" where
  "in_bounds im x y \<longleftrightarrow> 0 \<le> x \<and> x < im_width im \<and> 0 \<le> y \<and> y < im_height im"

definition pixel_at :: "img \<Rightarrow> int \<Rightarrow> int \<Rightarrow> rgba option" where
  "pixel_at im x y = (if in_bounds im x y then Some (pix im x y) else None)"

definition im_size :: "img \<Rightarrow> int \<times> int" where
  "im_size im = (im_width im, im_height im)"

definition c_int :: "int \<Rightarrow> bool" where
  "c_int x \<longleftrightarrow> - (2 ^ 31) \<le> x \<and> x < 2 ^ 31"

definition MAX_IMAGE_PIXELS :: int where
  "MAX_IMAGE_PIXELS = 89478485"

definition Image_new :: "int \<times> int \<Rightarrow> rgba \<Rightarrow> py_error + img" where
  "Image_new sz color =
     (case sz of (w, h) \<Rightarrow>
        if w < 0 \<or> h < 0 then Inl ValueError
        else if \<not> (c_int w \<and> c_int h) then Inl OverflowError
        else if 536870910 < w then Inl MemoryError
        else Inr \<lparr>im_width = w, im_height = h, pix = (\<lambda>x y. color)\<rparr>)"

definition crop_region :: "img \<Rightarrow> box \<Rightarrow> img" where
  "crop_region im b =
     (case b of (left, upper, right, lower) \<Rightarrow>
        \<lparr>im_width = right - left, im_height = lower - upper,
         pix = (\<lambda>x y. if in_bounds im (left + x) (upper + y)
                        then pix im (left + x) (upper + y) else (0, 0, 0, 0))\<rparr>)"

definition crop_check :: "box \<Rightarrow> py_error option" where
  "crop_check b =
     (case b of (left, upper, right, lower) \<Rightarrow>
        if right < left then Some ValueError
        else if lower < upper then Some ValueError
        else if 2 * MAX_IMAGE_PIXELS < max 1 (right - left) * max 1 (lower - upper)
          then Some DecompressionBombError
        else if \<not> (c_int left \<and> c_int upper \<and> c_int right \<and> c_int lower)
          then Some OverflowError
        else None)"

definition crop :: "img \<Rightarrow> box \<Rightarrow> py_error + img" where
  "crop im b = (case crop_check b of Some e \<Rightarrow> Inl e | None \<Rightarrow> Inr (crop_region im b))"

definition paste :: "img \<Rightarrow> img \<Rightarrow> int \<times> int \<Rightarrow> img" where
  "paste dst src pos =
     (case pos of (x, y) \<Rightarrow>
        dst\<lparr>pix := (\<lambda>px py.
               if x \<le> px \<and> px < x + im_width src \<and> y \<le> py \<and> py < y + im_height src
                  \<and> in_bounds dst px py
               then pix src (px - x) (py - y) else pix dst px py)\<rparr>)"

subsection \<open>Python arithmetic\<close>

text \<open>
  \<^verbatim>\<open>a % b\<close> and \<^verbatim>\<open>a // b\<close> round towards minus infinity, as \<open>mod\<close> and \<open>div\<close>
  on \<^typ>\<open>int\<close> do, and raise \<^verbatim>\<open>ZeroDivisionError\<close> for \<open>b = 0\<close>.
\<close>

definition py_mod :: "int \<Rightarrow> int \<Rightarrow> py_error + int" where
  "py_mod a b = (if b = 0 then Inl ZeroDivisionError else Inr (a mod b))"

definition py_floordiv :: "int \<Rightarrow> int \<Rightarrow> py_error + int" where
  "py_floordiv a b = (if b = 0 then Inl ZeroDivisionError else Inr (a div b))"

text \<open>
  \<^verbatim>\<open>math.ceil(a / b)\<close> on two integers. The division \<^verbatim>\<open>a / b\<close> gives the double
  nearest to the exact quotient, ties going to the even mantissa: a mantissa of 53 bits
  for a quotient of at least \<open>2 ^ - 1022\<close>, a multiple of \<open>2 ^ - 1074\<close> below that, and
  \<^verbatim>\<open>OverflowError\<close> when the rounded quotient reaches \<open>2 ^ 1024\<close>. The double is
  kept as the pair \<open>(m, sh)\<close> of its magnitude \<open>m * 2 ^ sh\<close>; \<^verbatim>\<open>math.ceil\<close> then
  takes the ceiling of the double, which is exact.

  \<open>bit_length n\<close> is \<^verbatim>\<open>n.bit_length()\<close>, \<open>ilog2_quot p q\<close> the exponent \<open>e\<close> with
  \<open>2 ^ e \<le> p / q < 2 ^ (e + 1)\<close>, and \<open>rne p q\<close> the integer nearest to \<open>p / q\<close>,
  the even one of two.
\<close>

function bit_length :: "int \<Rightarrow> nat" where
  "bit_length n = (if n \<le> 0 then 0 else Suc (bit_length (n div 2)))"
  by pat_completeness auto
termination
  by (relation "measure nat") auto

declare bit_length.simps [simp del]

definition quot_ge_pow2 :: "int \<Rightarrow> int \<Rightarrow> int \<Rightarrow> bool" where
  "quot_ge_pow2 p q e = (if 0 \<le> e then q * 2 ^ nat e \<le> p else q \<le> p * 2 ^ nat (- e))"

definition ilog2_quot :: "int \<Rightarrow> int \<Rightarrow> int" where
  "ilog2_quot p q =
     (let d = int (bit_length p) - int (bit_length q)
      in if quot_ge_pow2 p q d then d else d - 1)"

definition rne :: "int \<Rightarrow> int \<Rightarrow> int" where
  "rne p q =
     (let d = p div q; r = p mod q
      in if 2 * r < q \<or> (2 * r = q \<and> even d) then d else d + 1)"

definition float_of_quot :: "int \<Rightarrow> int \<Rightarrow> int \<times> int" where
  "float_of_quot p q =
     (let sh = max (ilog2_quot p q) (- 1022) - 52
      in (if 0 \<le> sh then rne p (q * 2 ^ nat sh) else rne (p * 2 ^ nat (- sh)) q, sh))"

definition float_overflows :: "int \<times> int \<Rightarrow> bool" where
  "float_overflows f =
     (case f of (m, sh) \<Rightarrow>
        if 0 \<le> sh then 2 ^ 1024 \<le> m * 2 ^ nat sh else 2 ^ 1024 * 2 ^ nat (- sh) \<le> m)"

definition ceil_float :: "bool \<Rightarrow> int \<times> int \<Rightarrow> int" where
  "ceil_float neg f =
     (case f of (m, sh) \<Rightarrow>
        if 0 \<le> sh then (if neg then - (m * 2 ^ nat sh) else m * 2 ^ nat sh)
        else (if neg then - (m div 2 ^ nat (- sh)) else - ((- m) div 2 ^ nat (- sh))))"

definition ceil_truediv :: "int \<Rightarrow> int \<Rightarrow> py_error + int" where
  "ceil_truediv a b =
     (if b = 0 then Inl ZeroDivisionError
      else if a = 0 then Inr 0
      else (let f = float_of_quot \<bar>a\<bar> \<bar>b\<bar>
            in if float_overflows f then Inl OverflowError
               else Inr (ceil_float ((a < 0) \<noteq> (b < 0)) f)))"

definition range_py :: "int \<Rightarrow> int list" where
  "range_py n = [0..n - 1]"

subsection \<open>\<^verbatim>\<open>slice_frames\<close>\<close>

text \<open>
  \<^verbatim>\<open>
  def slice_frames(sheet, frame_w, frame_h, row, start_col, count):
      frames = []
      for i in range(count):
          x = (start_col + i) * frame_w
          y = row * frame_h
          box = (x, y, x + frame_w, y + frame_h)
          frames.append(sheet.crop(box))
      return frames
  \<close>
\<close>

definition frame_box :: "int \<Rightarrow> int \<Rightarrow> int \<Rightarrow> int \<Rightarrow> int \<Rightarrow> box" where
  "frame_box frame_w frame_h row start_col i =
     (let x = (start_col + i) * frame_w;
          y = row * frame_h
      in (x, y, x + frame_w, y + frame_h))"

fun slice_loop :: "img \<Rightarrow> int \<Rightarrow> int \<Rightarrow> int \<Rightarrow> int \<Rightarrow> int list \<Rightarrow> img list
                    \<Rightarrow> py_error + img list" where
  "slice_loop sheet frame_w frame_h row start_col [] frames = Inr frames"
| "slice_loop sheet frame_w frame_h row start_col (i # rest) frames =
     (case crop sheet (frame_box frame_w frame_h row start_col i) of
        Inl e \<Rightarrow> Inl e
      | Inr f \<Rightarrow> slice_loop sheet frame_w frame_h row start_col rest (frames @ [f]))"

definition slice_frames :: "img \<Rightarrow> int \<Rightarrow> int \<Rightarrow> int \<Rightarrow> int \<Rightarrow> int \<Rightarrow> py_error + img list" where
  "slice_frames sheet frame_w frame_h row start_col count =
     slice_loop sheet frame_w frame_h row start_col (range_py count) []"

subsection \<open>\<^verbatim>\<open>paste_frames_to_atlas\<close>\<close>

text \<open>
  \<^verbatim>\<open>
  def paste_frames_to_atlas(frames, frame_w, frame_h, cols):
      rows = math.ceil(len(frames) / cols)
      atlas_w = cols * frame_w
      atlas_h = rows * frame_h
      atlas = Image.new("RGBA", (atlas_w, atlas_h), (0, 0, 0, 0))
      rects = []
      for idx, frame in enumerate(frames):
          cx = idx % cols
          cy = idx // cols
          x = cx * frame_w
          y = cy * frame_h
          atlas.paste(frame, (x, y))
          rects.append((x, y, frame_w, frame_h))
      return atlas, rects
  \<close>
  A rectangle is the tuple \<open>(x, y, w, h)\<close> of the source.
\<close>

type_synonym rect = "int \<times> int \<times> int \<times> int"

fun paste_loop :: "int \<Rightarrow> int \<Rightarrow> int \<Rightarrow> (nat \<times> img) list \<Rightarrow> img \<Rightarrow> rect list
                    \<Rightarrow> py_error + img \<times> rect list" where
  "paste_loop frame_w frame_h cols [] atlas rects = Inr (atlas, rects)"
| "paste_loop frame_w frame_h cols ((idx, frame) # rest) atlas rects =
     (case py_mod (int idx) cols of
        Inl e \<Rightarrow> Inl e
      | Inr cx \<Rightarrow>
         (case py_floordiv (int idx) cols of
            Inl e \<Rightarrow> Inl e
          | Inr cy \<Rightarrow>
             (let x = cx * frame_w;
                  y = cy * frame_h
              in paste_loop frame_w frame_h cols rest
                   (paste atlas frame (x, y)) (rects @ [(x, y, frame_w, frame_h)]))))"

definition paste_frames_to_atlas :: "img list \<Rightarrow> int \<Rightarrow> int \<Rightarrow> int \<Rightarrow> py_error + img \<times> rect list" where
  "paste_frames_to_atlas frames frame_w frame_h cols =
     (case ceil_truediv (int (length frames)) cols of
        Inl e \<Rightarrow> Inl e
      | Inr rows \<Rightarrow>
         (let atlas_w = cols * frame_w;
              atlas_h = rows * frame_h
          in case Image_new (atlas_w, atlas_h) (0, 0, 0, 0) of
               Inl e \<Rightarrow> Inl e
             | Inr atlas \<Rightarrow> paste_loop frame_w frame_h cols (enumerate 0 frames) atlas []))"

subsection \<open>Rectangles as sets of pixels\<close>

definition in_rect :: "rect \<Rightarrow> int \<times> int \<Rightarrow> bool" where
  "in_rect r p =
     (case r of (x, y, w, h) \<Rightarrow> case p of (px, py) \<Rightarrow>
        x \<le> px \<and> px < x + w \<and> y \<le> py \<and> py < y + h)"

definition rects_overlap :: "rect \<Rightarrow> rect \<Rightarrow> bool" where
  "rects_overlap r1 r2 =
     (case r1 of (x1, y1, w1, h1) \<Rightarrow> case r2 of (x2, y2, w2, h2) \<Rightarrow>
        max x1 x2 < min (x1 + w1) (x2 + w2) \<and> max y1 y2 < min (y1 + h1) (y2 + h2))"

definition cell_rect :: "int \<Rightarrow> int \<Rightarrow> int \<Rightarrow> nat \<Rightarrow> rect" where
  "cell_rect frame_w frame_h cols idx =
     ((int idx mod cols) * frame_w, (int idx div cols) * frame_h, frame_w, frame_h)"

subsection \<open>Frame names\<close>

text \<open>
  \<^verbatim>\<open>f"{i:04d}"\<close> writes a non-negative integer in decimal, padded on the left with
  zeros to at least four characters; \<open>i\<close> comes from \<^verbatim>\<open>enumerate\<close> and is never
  negative.
\<close>

definition digit_char :: "nat \<Rightarrow> char" where
  "digit_char d = ''0123456789'' ! d"

fun str_nat :: "nat \<Rightarrow> string" where
  "str_nat n = (if n < 10 then [digit_char n] else str_nat (n div 10) @ [digit_char (n mod 10)])"

declare str_nat.simps [simp del]

definition fmt_04d :: "nat \<Rightarrow> string" where
  "fmt_04d i = (let s = str_nat i in replicate (4 - length s) (CHR ''0'') @ s)"

definition static_name :: "string \<Rightarrow> string \<Rightarrow> string" where
  "static_name ident dir_key = ident @ ''-'' @ dir_key"

definition walk_name :: "string \<Rightarrow> string \<Rightarrow> nat \<Rightarrow> string" where
  "walk_name ident dir_key i = ident @ ''-'' @ dir_key @ ''-walk-'' @ fmt_04d i"

subsection \<open>\<^verbatim>\<open>main\<close>\<close>

text \<open>
  The options that the computation reads. \<^verbatim>\<open>--image\<close> and \<^verbatim>\<open>--out\<close> only name
  files, and \<^verbatim>\<open>--cols\<close> is parsed but never read. \<open>ident\<close> is \<^verbatim>\<open>args.id\<close>.
\<close>

record args =
  ident :: string
  frame_width :: int
  frame_height :: int
  start_col :: int
  walk_frames :: int
  front_row :: int
  left_row :: int
  right_row :: int
  back_row :: int
  static_col :: int
  atlas_cols :: int

text \<open>
  Both loops of \<^verbatim>\<open>main\<close> run over the same list of pairs:
  \<^verbatim>\<open>
  for dir_key, row in [("front", args.front_row), ("back", args.back_row),
                       ("left", args.left_row), ("right", args.right_row)]:
  \<close>
\<close>

definition directions :: "args \<Rightarrow> (string \<times> int) list" where
  "directions a =
     [(''front'', front_row a), (''back'', back_row a),
      (''left'', left_row a), (''right'', right_row a)]"

text \<open>
  The state of the loops is the pair of lists \<open>(name_order, images)\<close>.
  \<^verbatim>\<open>
      x = args.static_col * args.frame_width
      y = row * args.frame_height
      static_img = sheet.crop((x, y, x + args.frame_width, y + args.frame_height))
      images.append(static_img)
      name_order.append(f"{args.id}-{dir_key}")
  \<close>
\<close>

definition static_box :: "args \<Rightarrow> int \<Rightarrow> box" where
  "static_box a row =
     (let x = static_col a * frame_width a;
          y = row * frame_height a
      in (x, y, x + frame_width a, y + frame_height a))"

fun static_loop :: "args \<Rightarrow> img \<Rightarrow> (string \<times> int) list \<Rightarrow> string list \<times> img list
                     \<Rightarrow> py_error + string list \<times> img list" where
  "static_loop a sheet [] st = Inr st"
| "static_loop a sheet ((dir_key, row) # rest) (name_order, images) =
     (case crop sheet (static_box a row) of
        Inl e \<Rightarrow> Inl e
      | Inr static_img \<Rightarrow>
          static_loop a sheet rest
            (name_order @ [static_name (ident a) dir_key], images @ [static_img]))"

text \<open>
  \<^verbatim>\<open>
      frames = slice_frames(sheet, args.frame_width, args.frame_height, row,
                            args.start_col, args.walk_frames)
      # If your LPC has only 8 frames, you can duplicate one to make 9
      if args.walk_frames == 9 and len(frames) == 8:
          frames.append(frames[-1])
      for i, img in enumerate(frames):
          images.append(img)
          name_order.append(f"{args.id}-{dir_key}-walk-{i:04d}")
  \<close>
  \<open>pad_walk\<close> is the \<^verbatim>\<open>if\<close>, \<open>emit_walk\<close> the inner loop and \<open>walk_tail\<close> both,
  that is everything after the call of \<^verbatim>\<open>slice_frames\<close>. \<^verbatim>\<open>frames[-1]\<close> is only
  evaluated for a list of eight elements, where it is \<open>last frames\<close>.
\<close>

definition pad_walk :: "int \<Rightarrow> img list \<Rightarrow> img list" where
  "pad_walk n frames = (if n = 9 \<and> length frames = 8 then frames @ [last frames] else frames)"

fun emit_walk :: "string \<Rightarrow> string \<Rightarrow> (nat \<times> img) list \<Rightarrow> string list \<times> img list
                   \<Rightarrow> string list \<times> img list" where
  "emit_walk idt dir_key [] st = st"
| "emit_walk idt dir_key ((i, im) # rest) (name_order, images) =
     emit_walk idt dir_key rest (name_order @ [walk_name idt dir_key i], images @ [im])"

definition walk_tail :: "string \<Rightarrow> string \<Rightarrow> int \<Rightarrow> img list \<Rightarrow> string list \<times> img list
                          \<Rightarrow> string list \<times> img list" where
  "walk_tail idt dir_key n frames st = emit_walk idt dir_key (enumerate 0 (pad_walk n frames)) st"

fun walk_loop :: "args \<Rightarrow> img \<Rightarrow> (string \<times> int) list \<Rightarrow> string list \<times> img list
                   \<Rightarrow> py_error + string list \<times> img list" where
  "walk_loop a sheet [] st = Inr st"
| "walk_loop a sheet ((dir_key, row) # rest) st =
     (case slice_frames sheet (frame_width a) (frame_height a) row (start_col a) (walk_frames a) of
        Inl e \<Rightarrow> Inl e
      | Inr frames \<Rightarrow>
          walk_loop a sheet rest (walk_tail (ident a) dir_key (walk_frames a) frames st))"

text \<open>
  Lines 59 to 80 of the script, which the specification calls
  \<^verbatim>\<open>build_name_and_frame_lists\<close>: the two loops, starting from empty lists.
\<close>

definition build_name_and_frame_lists :: "args \<Rightarrow> img \<Rightarrow> py_error + string list \<times> img list" where
  "build_name_and_frame_lists a sheet =
     (case static_loop a sheet (directions a) ([], []) of
        Inl e \<Rightarrow> Inl e
      | Inr st \<Rightarrow> walk_loop a sheet (directions a) st)"

text \<open>
  The manifest. A Python \<^verbatim>\<open>dict\<close> keeps its keys in the order of their first
  insertion, and an assignment to a key that is present replaces the value in place:
  this is \<^const>\<open>AList.update\<close> on an association list.
  \<^verbatim>\<open>
  frames_json = {}
  for name, (x, y, w, h) in zip(name_order, rects):
      frames_json[name] = {
          "frame": {"x": x, "y": y, "w": w, "h": h},
          "rotated": False,
          "trimmed": False,
          "spriteSourceSize": {"x": 0, "y": 0, "w": w, "h": h},
          "sourceSize": {"w": w, "h": h}
      }
  \<close>
\<close>

record json_rect =
  jx :: int
  jy :: int
  jw :: int
  jh :: int

record json_size =
  sw :: int
  sh :: int

record frame_entry =
  js_frame :: json_rect
  js_rotated :: bool
  js_trimmed :: bool
  js_spriteSourceSize :: json_rect
  js_sourceSize :: json_size

definition entry_of :: "rect \<Rightarrow> frame_entry" where
  "entry_of r =
     (case r of (x, y, w, h) \<Rightarrow>
        \<lparr>js_frame = \<lparr>jx = x, jy = y, jw = w, jh = h\<rparr>,
         js_rotated = False,
         js_trimmed = False,
         js_spriteSourceSize = \<lparr>jx = 0, jy = 0, jw = w, jh = h\<rparr>,
         js_sourceSize = \<lparr>sw = w, sh = h\<rparr>\<rparr>)"

fun frames_json_loop :: "(string \<times> rect) list \<Rightarrow> (string \<times> frame_entry) list
                          \<Rightarrow> (string \<times> frame_entry) list" where
  "frames_json_loop [] frames_json = frames_json"
| "frames_json_loop ((name, r) # rest) frames_json =
     frames_json_loop rest (AList.update name (entry_of r) frames_json)"

record manifest =
  js_frames :: "(string \<times> frame_entry) list"
  js_meta_image :: string

text \<open>
  \<^verbatim>\<open>main\<close> without its file operations: from the options and the decoded sheet to
  the atlas and the manifest that are written to \<^verbatim>\<open>atlas.png\<close> and \<^verbatim>\<open>atlas.json\<close>.
\<close>

definition main :: "args \<Rightarrow> img \<Rightarrow> py_error + img \<times> manifest" where
  "main a sheet =
     (case build_name_and_frame_lists a sheet of
        Inl e \<Rightarrow> Inl e
      | Inr (name_order, images) \<Rightarrow>
         (case paste_frames_to_atlas images (frame_width a) (frame_height a) (atlas_cols a) of
            Inl e \<Rightarrow> Inl e
          | Inr (atlas, rects) \<Rightarrow>
              Inr (atlas, \<lparr>js_frames = frames_json_loop (zip name_order rects) [],
                           js_meta_image = ''atlas.png''\<rparr>)))"

subsection \<open>Reading a decimal string\<close>

text \<open>The number that a string of decimal digits denotes; leading zeros do not count.\<close>

definition digit_val :: "char \<Rightarrow> nat" where
  "digit_val c = of_char c - 48"

definition dec_value :: "string \<Rightarrow> nat" where
  "dec_value s = foldl (\<lambda>a c. 10 * a + digit_val c) 0 s"

subsection \<open>The cells that \<^verbatim>\<open>main\<close> is meant to extract\<close>

text \<open>
  The static pose of a direction is the cell of the sheet in the row of the direction
  and the column \<open>static_col\<close>; walk frame \<open>i\<close> is the cell in the same row and
  column \<open>start_col + i\<close>.
\<close>

definition cell_at :: "args \<Rightarrow> img \<Rightarrow> int \<Rightarrow> int \<Rightarrow> img" where
  "cell_at a sheet row col =
     crop_region sheet
       (col * frame_width a, row * frame_height a,
        col * frame_width a + frame_width a, row * frame_height a + frame_height a)"

definition static_cell :: "args \<Rightarrow> img \<Rightarrow> int \<Rightarrow> img" where
  "static_cell a sheet row = cell_at a sheet row (static_col a)"

definition walk_cell :: "args \<Rightarrow> img \<Rightarrow> int \<Rightarrow> nat \<Rightarrow> img" where
  "walk_cell a sheet row i = cell_at a sheet row (start_col a + int i)"

subsection \<open>Sample images\<close>

text \<open>An image of one colour, for the concrete instances of the theorems.\<close>

definition solid :: "int \<Rightarrow> int \<Rightarrow> rgba \<Rightarrow> img" where
  "solid w h c = \<lparr>im_width = w, im_height = h, pix = (\<lambda>x y. c)\<rparr>"

text \<open>A sheet on which every pixel has its own colour, as long as it is below 256 by 256.\<close>

definition gradient :: "int \<Rightarrow> int \<Rightarrow> img" where
  "gradient w h = \<lparr>im_width = w, im_height = h, pix = (\<lambda>x y. (word_of_int x, word_of_int y, 0, 255))\<rparr>"

text \<open>
  Options for a character \<^verbatim>\<open>hero\<close> with the rows of the usage example at the head of
  the script; the frame width and the number of walk frames are left open.
\<close>

definition hero :: "int \<Rightarrow> int \<Rightarrow> args" where
  "hero w n =
     \<lparr>ident = ''hero'', frame_width = w, frame_height = 2, start_col = 1, walk_frames = n,
      front_row = 10, left_row = 9, right_row = 11, back_row = 8, static_col = 0,
      atlas_cols = 10\<rparr>"

section \<open>Properties\<close>

subsection \<open>Rectangles\<close>

lemma rects_overlap_iff: "rects_overlap r1 r2 \<longleftrightarrow> (\<exists>p. in_rect r1 p \<and> in_rect r2 p)"
proof
  assume ov: "rects_overlap r1 r2"
  obtain x1 y1 w1 h1 where r1: "r1 = (x1, y1, w1, h1)" by (cases r1) auto
  obtain x2 y2 w2 h2 where r2: "r2 = (x2, y2, w2, h2)" by (cases r2) auto
  from ov have "in_rect r1 (max x1 x2, max y1 y2) \<and> in_rect r2 (max x1 x2, max y1 y2)"
    by (auto simp: rects_overlap_def in_rect_def r1 r2)
  then show "\<exists>p. in_rect r1 p \<and> in_rect r2 p" by blast
next
  assume "\<exists>p. in_rect r1 p \<and> in_rect r2 p"
  then show "rects_overlap r1 r2"
    by (cases r1; cases r2) (auto simp: rects_overlap_def in_rect_def)
qed

subsection \<open>Division in floating point\<close>

lemma bit_length_bounds:
  "0 < n \<Longrightarrow> 2 ^ (bit_length n - 1) \<le> n \<and> n < 2 ^ bit_length n"
proof (induction n rule: bit_length.induct)
  case (1 n)
  show ?case
  proof (cases "n div 2 \<le> 0")
    case True
    with "1.prems" have "n = 1" by linarith
    then show ?thesis by (simp add: bit_length.simps [of 1] bit_length.simps [of 0])
  next
    case False
    then have h: "0 < n div 2" by simp
    with "1.IH" "1.prems" have ih: "2 ^ (bit_length (n div 2) - 1) \<le> n div 2"
      "n div 2 < 2 ^ bit_length (n div 2)"
      by simp_all
    from h have pos: "0 < bit_length (n div 2)"
      by (simp add: bit_length.simps [of "n div 2"])
    have bl: "bit_length n = Suc (bit_length (n div 2))"
      using "1.prems" by (simp add: bit_length.simps [of n])
    from pos have "(2::int) ^ bit_length (n div 2) = 2 * 2 ^ (bit_length (n div 2) - 1)"
      by (cases "bit_length (n div 2)") simp_all
    with ih(1) have "2 ^ bit_length (n div 2) \<le> 2 * (n div 2)" by simp
    also have "\<dots> \<le> n" by simp
    finally have lo: "2 ^ (bit_length n - 1) \<le> n" by (simp add: bl)
    from ih(2) have "n div 2 + 1 \<le> 2 ^ bit_length (n div 2)" by simp
    moreover have "n < 2 * (n div 2 + 1)" by presburger
    ultimately have "n < 2 ^ bit_length n" by (simp add: bl)
    with lo show ?thesis by simp
  qed
qed

lemma bit_length_pos: "0 < n \<Longrightarrow> 0 < bit_length n"
  by (simp add: bit_length.simps [of n])

lemma ilog2_quot_lower:
  assumes p: "0 < p" and q: "0 < q"
  shows "quot_ge_pow2 p q (ilog2_quot p q)"
proof (cases "quot_ge_pow2 p q (int (bit_length p) - int (bit_length q))")
  case True
  then show ?thesis by (simp add: ilog2_quot_def)
next
  case False
  let ?bp = "bit_length p" and ?bq = "bit_length q"
  from bit_length_bounds [OF p] have lo: "2 ^ (?bp - 1) \<le> p" by simp
  from bit_length_bounds [OF q] have hi: "q < 2 ^ ?bq" by simp
  from bit_length_pos [OF p] have bp: "0 < ?bp" .
  have "quot_ge_pow2 p q (int ?bp - int ?bq - 1)"
  proof (cases "?bq < ?bp")
    case True
    then have e: "nat (int ?bp - int ?bq - 1) = ?bp - ?bq - 1" by simp
    from hi have "q * 2 ^ (?bp - ?bq - 1) \<le> 2 ^ ?bq * 2 ^ (?bp - ?bq - 1)"
      by (simp add: mult_right_mono)
    also have "\<dots> = 2 ^ (?bp - 1)"
      using True by (simp add: power_add [symmetric])
    also note lo
    finally show ?thesis using True by (simp add: quot_ge_pow2_def e)
  next
    case False
    then have e: "nat (- (int ?bp - int ?bq - 1)) = ?bq - ?bp + 1" by simp
    from hi have "q \<le> 2 ^ ?bq" by simp
    also have "(2::int) ^ ?bq = 2 ^ (?bp - 1) * 2 ^ (?bq - ?bp + 1)"
    proof -
      have "(?bp - 1) + (?bq - ?bp + 1) = ?bq" using False bp by simp
      with power_add [of "2::int" "?bp - 1" "?bq - ?bp + 1"] show ?thesis
        by (simp only:)
    qed
    also from lo have "\<dots> \<le> p * 2 ^ (?bq - ?bp + 1)"
      by (simp add: mult_right_mono)
    finally have r: "q \<le> p * 2 ^ (?bq - ?bp + 1)" .
    from False have neg: "\<not> 0 \<le> int ?bp - int ?bq - 1" by simp
    show ?thesis by (simp only: quot_ge_pow2_def neg if_False e r)
  qed
  with False show ?thesis by (simp add: ilog2_quot_def)
qed

lemma rne_exact: "0 < q \<Longrightarrow> rne (j * q) q = j"
  by (simp add: rne_def)

lemma div_less_of_less_mult:
  fixes p q j :: int
  assumes "0 < q" and "p < j * q"
  shows "p div q < j"
proof -
  have "(p div q) * q + p mod q = p" by simp
  moreover from assms(1) have "0 \<le> p mod q" by simp
  ultimately have "(p div q) * q \<le> p" by linarith
  with assms(2) have "(p div q) * q < j * q" by linarith
  with assms(1) show ?thesis by (simp only: mult_less_cancel_right_pos)
qed

lemma le_div_of_mult_le:
  fixes p q j :: int
  assumes "0 < q" and "j * q \<le> p"
  shows "j \<le> p div q"
proof -
  have "(p div q) * q + p mod q = p" by simp
  moreover from assms(1) have "p mod q < q" by simp
  ultimately have "p < (p div q) * q + q" by linarith
  also have "\<dots> = (p div q + 1) * q" by (simp add: algebra_simps)
  finally have "j * q < (p div q + 1) * q" using assms(2) by linarith
  with assms(1) have "j < p div q + 1" by (simp only: mult_less_cancel_right_pos)
  then show ?thesis by simp
qed

lemma rne_le:
  assumes "0 < q" and "p \<le> j * q"
  shows "rne p q \<le> j"
proof (cases "p = j * q")
  case True
  with assms(1) show ?thesis by (simp add: rne_exact)
next
  case False
  with assms(2) have "p < j * q" by simp
  with assms(1) have "p div q < j" by (rule div_less_of_less_mult)
  then show ?thesis by (simp add: rne_def Let_def)
qed

lemma rne_ge:
  assumes q: "0 < q" and lo: "j * q \<le> p" and half: "q < 2 * (p - j * q)"
  shows "j + 1 \<le> rne p q"
proof -
  from q lo have d: "j \<le> p div q" by (rule le_div_of_mult_le)
  show ?thesis
  proof (cases "j = p div q")
    case True
    have "p mod q = p - (p div q) * q" by (simp add: minus_div_mult_eq_mod)
    with True half have "q < 2 * (p mod q)" by simp
    then show ?thesis by (simp add: rne_def Let_def True)
  next
    case False
    with d have "j + 1 \<le> p div q" by simp
    then show ?thesis by (simp add: rne_def Let_def)
  qed
qed

lemma ceil_div_between:
  fixes k m t :: int
  assumes t: "0 < t" and lo: "k * t < m" and hi: "m \<le> (k + 1) * t"
  shows "- ((- m) div t) = k + 1"
proof -
  from t lo have "(- m) div t < - k"
    by (intro div_less_of_less_mult) simp_all
  moreover from hi have "(- (k + 1)) * t \<le> - m" by (simp add: algebra_simps)
  with t have "- (k + 1) \<le> (- m) div t" by (rule le_div_of_mult_le)
  ultimately show ?thesis by linarith
qed


lemma ceil_mod_zero:
  fixes n c :: int
  assumes "0 < c" and "n mod c = 0"
  shows "- ((- n) div c) = n div c"
  using assms by (simp add: zdiv_zminus1_eq_if)

lemma float_of_quot_exact:
  assumes n: "0 < n" "n < 2 ^ 53" and c: "0 < c" "c < 2 ^ 1075"
  shows "\<not> float_overflows (float_of_quot n c)
         \<and> ceil_float False (float_of_quot n c) = - ((- n) div c)"
proof -
  let ?E = "ilog2_quot n c"
  let ?sh = "max ?E (- 1022) - 52"
  let ?k = "n div c" and ?r = "n mod c"
  have k0: "0 \<le> ?k" using n c by (simp add: pos_imp_zdiv_nonneg_iff)
  have nk: "?k * c + ?r = n" by simp
  have r: "0 \<le> ?r" "?r < c" using c by simp_all
  have hn: "n \<le> (?k + 1) * c"
  proof -
    have "(?k + 1) * c = ?k * c + c" by (simp add: algebra_simps)
    with nk r(2) show ?thesis by linarith
  qed
  have kn: "?k \<le> n"
  proof -
    from k0 c(1) have "?k * 1 \<le> ?k * c" by (intro mult_left_mono) simp_all
    with nk r(1) show ?thesis by linarith
  qed
  from ilog2_quot_lower [OF n(1) c(1)] have ge: "quot_ge_pow2 n c ?E" .
  have E52: "?E \<le> 52"
  proof (rule ccontr)
    assume "\<not> ?E \<le> 52"
    then have E: "53 \<le> ?E" by simp
    then have "(2::int) ^ 53 \<le> 2 ^ nat ?E" by (intro power_increasing) simp_all
    also from c(1) have "\<dots> \<le> c * 2 ^ nat ?E" by simp
    also from ge E have "\<dots> \<le> n" by (simp add: quot_ge_pow2_def)
    finally show False using n(2) by simp
  qed
  have cb: "c < 2 ^ nat (1 - ?sh)"
  proof (cases "- 1022 \<le> ?E")
    case True
    then have sh: "?sh = ?E - 52" by simp
    show ?thesis
    proof (cases "0 \<le> ?E")
      case True
      with ge have "c * 2 ^ nat ?E \<le> n" by (simp add: quot_ge_pow2_def)
      also note n(2)
      also have "(2::int) ^ 53 = 2 ^ nat (53 - ?E) * 2 ^ nat ?E"
      proof -
        from True E52 have "nat (53 - ?E) + nat ?E = 53" by simp
        with power_add [of "2::int" "nat (53 - ?E)" "nat ?E"] show ?thesis by (simp only:)
      qed
      finally have "c < 2 ^ nat (53 - ?E)" by (simp only: mult_less_cancel_right_pos zero_less_power zero_less_numeral)
      then show ?thesis by (simp add: sh algebra_simps)
    next
      case False
      with ge have "c \<le> n * 2 ^ nat (- ?E)" by (simp add: quot_ge_pow2_def)
      also from n(2) have "\<dots> < 2 ^ 53 * 2 ^ nat (- ?E)" by simp
      also have "\<dots> = 2 ^ nat (53 - ?E)"
      proof -
        from False have "53 + nat (- ?E) = nat (53 - ?E)" by simp
        with power_add [of "2::int" 53 "nat (- ?E)"] show ?thesis by (simp only:)
      qed
      finally show ?thesis by (simp add: sh algebra_simps)
    qed
  next
    case False
    then have "?sh = - 1074" by simp
    with c(2) show ?thesis by simp
  qed
  show ?thesis
  proof (cases "?sh = 0")
    case True
    then have "nat (1 - ?sh) = 1" by simp
    with cb have "c < 2" by (simp only: power_one_right)
    with c(1) have c1: "c = 1" by simp
    from True have "float_of_quot n c = (rne n c, 0)"
      by (simp add: float_of_quot_def Let_def)
    also have "rne n c = n" using rne_exact [of 1 n] by (simp add: c1)
    finally have f: "float_of_quot n c = (n, 0)" .
    from n(2) have "n < 2 ^ 1024"
      by (rule less_le_trans) simp
    then show ?thesis unfolding f by (simp add: float_overflows_def ceil_float_def c1)
  next
    case False
    with E52 have neg: "?sh < 0" by simp
    define s where "s = nat (- ?sh)"
    define m where "m = rne (n * 2 ^ s) c"
    have f: "float_of_quot n c = (m, ?sh)"
      using neg by (simp add: float_of_quot_def Let_def m_def s_def)
    have t: "(0::int) < 2 ^ s" by simp
    from neg have "nat (1 - ?sh) = Suc s" by (simp add: s_def)
    with cb have cb': "c < 2 * 2 ^ s" by simp
    have bounds: "- ((- m) div 2 ^ s) = - ((- n) div c) \<and> m \<le> (?k + 1) * 2 ^ s"
    proof (cases "?r = 0")
      case True
      with nk have "n * 2 ^ s = (?k * 2 ^ s) * c" by (simp add: algebra_simps)
      with c(1) have m: "m = ?k * 2 ^ s" by (simp only: m_def rne_exact)
      have "- ((- m) div 2 ^ s) = ?k"
      proof -
        have "m mod 2 ^ s = 0" by (simp add: m)
        with t have "- ((- m) div 2 ^ s) = m div 2 ^ s" by (rule ceil_mod_zero)
        also have "\<dots> = ?k" by (simp add: m)
        finally show ?thesis .
      qed
      moreover from c(1) True have "- ((- n) div c) = ?k" by (rule ceil_mod_zero)
      moreover have "m \<le> (?k + 1) * 2 ^ s" by (simp add: m algebra_simps)
      ultimately show ?thesis by simp
    next
      case False
      with r have r1: "1 \<le> ?r" by simp
      from nk r have low: "(?k * 2 ^ s) * c \<le> n * 2 ^ s"
      proof -
        from nk r(1) have "?k * c \<le> n" by linarith
        then have "(?k * c) * 2 ^ s \<le> n * 2 ^ s" by (intro mult_right_mono) simp_all
        then show ?thesis by (simp add: algebra_simps)
      qed
      have "n * 2 ^ s - (?k * 2 ^ s) * c = ?r * 2 ^ s"
      proof -
        from nk have "n - ?k * c = ?r" by linarith
        then have "(n - ?k * c) * 2 ^ s = ?r * 2 ^ s" by simp
        then show ?thesis by (simp add: algebra_simps)
      qed
      moreover from r1 have "1 * 2 ^ s \<le> ?r * (2::int) ^ s" by (intro mult_right_mono) simp_all
      ultimately have "2 * 2 ^ s \<le> 2 * (n * 2 ^ s - (?k * 2 ^ s) * c)" by simp
      with cb' have half: "c < 2 * (n * 2 ^ s - (?k * 2 ^ s) * c)" by linarith
      from rne_ge [OF c(1) low half] have m_lo: "?k * 2 ^ s < m" by (simp add: m_def)
      have "n * 2 ^ s \<le> ((?k + 1) * 2 ^ s) * c"
      proof -
        from hn have "n * 2 ^ s \<le> ((?k + 1) * c) * 2 ^ s" by (intro mult_right_mono) simp_all
        then show ?thesis by (simp add: algebra_simps)
      qed
      with c(1) have m_hi: "m \<le> (?k + 1) * 2 ^ s" unfolding m_def by (rule rne_le)
      from ceil_div_between [OF t m_lo m_hi] have "- ((- m) div 2 ^ s) = ?k + 1" .
      moreover have "- ((- n) div c) = ?k + 1"
      proof (rule ceil_div_between [OF c(1)])
        from nk r1 show "?k * c < n" by linarith
        from hn show "n \<le> (?k + 1) * c" .
      qed
      ultimately show ?thesis using m_hi by simp
    qed
    have k53: "?k + 1 \<le> 2 ^ 53" using kn n(2) by simp
    from bounds have "m \<le> (?k + 1) * 2 ^ s" by (rule conjunct2)
    also from k53 have "\<dots> \<le> 2 ^ 53 * 2 ^ s" by (intro mult_right_mono) simp_all
    also have "\<dots> < 2 ^ 1024 * 2 ^ s" by simp
    finally have ov: "\<not> 2 ^ 1024 * 2 ^ s \<le> m" by simp
    from neg have nsh: "\<not> 0 \<le> ?sh" by simp
    have "float_overflows (m, ?sh) = (2 ^ 1024 * 2 ^ s \<le> m)"
      by (simp only: float_overflows_def prod.case nsh if_False s_def)
    moreover have "ceil_float False (m, ?sh) = - ((- m) div 2 ^ s)"
      by (simp only: ceil_float_def prod.case nsh if_False s_def)
    ultimately show ?thesis unfolding f using ov bounds by (simp only:) simp
  qed
qed

lemma ceil_truediv_exact:
  assumes "0 \<le> n" and "n < 2 ^ 53" and "0 < c" and "c < 2 ^ 1075"
  shows "ceil_truediv n c = Inr (- ((- n) div c))"
proof (cases "n = 0")
  case True
  with assms(3) show ?thesis by (simp add: ceil_truediv_def)
next
  case False
  with assms(1) have "0 < n" by simp
  from float_of_quot_exact [OF this assms(2-4)] assms(3) False \<open>0 < n\<close>
  show ?thesis by (simp add: ceil_truediv_def Let_def)
qed


lemma bit_length_pow2: "bit_length (2 ^ k) = Suc k"
proof (induction k)
  case 0
  show ?case by (simp add: bit_length.simps [of 1] bit_length.simps [of 0])
next
  case (Suc k)
  have "bit_length (2 ^ Suc k) = Suc (bit_length (2 ^ Suc k div 2))"
    by (subst bit_length.simps) simp
  with Suc show ?case by simp
qed

lemma ceil_truediv_zero: "b \<noteq> 0 \<Longrightarrow> ceil_truediv 0 b = Inr 0"
  by (simp add: ceil_truediv_def)

text \<open>
  Below \<open>2 ^ 53\<close> frames and \<open>2 ^ 1075\<close> columns the rounding of the division does not
  show: \<^verbatim>\<open>math.ceil(n / cols)\<close> is the ceiling of the exact quotient.
\<close>

lemma ceil_truediv_real:
  assumes "0 < c" and "c < 2 ^ 1075" and "int n < 2 ^ 53"
  shows "ceil_truediv (int n) c = Inr \<lceil>real n / real_of_int c\<rceil>"
proof -
  have "ceil_truediv (int n) c = Inr (- ((- int n) div c))"
    using assms by (intro ceil_truediv_exact) simp_all
  also have "- ((- int n) div c) = \<lceil>real n / real_of_int c\<rceil>"
    using ceiling_divide_eq_div [of "int n" c, where ?'a = real] by simp
  finally show ?thesis .
qed

text \<open>Beyond that it does: one frame on \<open>2 ^ 1100\<close> columns gives no row at all.\<close>

lemma ceil_truediv_underflow: "ceil_truediv 1 (2 ^ 1100) = Inr 0"
proof -
  have "bit_length 1 = 1" by (simp add: bit_length.simps [of 1] bit_length.simps [of 0])
  moreover have "bit_length (2 ^ 1100) = 1101" by (subst bit_length_pow2) simp
  ultimately have "ilog2_quot 1 (2 ^ 1100) = - 1100"
    by (simp add: ilog2_quot_def quot_ge_pow2_def)
  then have "float_of_quot 1 (2 ^ 1100) = (0, - 1074)"
    by (simp add: float_of_quot_def rne_def)
  then show ?thesis
    by (simp add: ceil_truediv_def float_overflows_def ceil_float_def)
qed

subsection \<open>The checks of the image capability\<close>

lemma Image_new_Inr:
  "Image_new (w, h) c = Inr im
     \<longleftrightarrow> 0 \<le> w \<and> w \<le> 536870910 \<and> 0 \<le> h \<and> h < 2 ^ 31 \<and> im = solid w h c"
  by (auto simp: Image_new_def c_int_def solid_def)

lemma crop_Inr: "crop im b = Inr f \<longleftrightarrow> crop_check b = None \<and> f = crop_region im b"
  by (auto simp: crop_def split: option.splits)

lemma crop_check_size:
  "crop_check (x, y, x + w, y + h) = None \<Longrightarrow> 0 \<le> w \<and> 0 \<le> h"
  by (simp add: crop_check_def split: if_splits)

lemma crop_check_negative:
  "w < 0 \<or> h < 0 \<Longrightarrow> crop_check (x, y, x + w, y + h) = Some ValueError"
  by (auto simp: crop_check_def)

lemma crop_region_size [simp]: "im_size (crop_region sheet (x, y, x + w, y + h)) = (w, h)"
  by (simp add: crop_region_def im_size_def)

subsection \<open>The paste loop\<close>

lemma paste_loop_rects:
  "ncols \<noteq> 0 \<Longrightarrow>
   \<exists>atlas'. paste_loop frame_w frame_h ncols (enumerate n frames) atlas rects
      = Inr (atlas', rects @ map (cell_rect frame_w frame_h ncols) [n..<n + length frames])
      \<and> im_width atlas' = im_width atlas \<and> im_height atlas' = im_height atlas"
proof (induction frames arbitrary: n atlas rects)
  case Nil
  then show ?case by simp
next
  case (Cons f frames)
  let ?atlas1 = "paste atlas f ((int n mod ncols) * frame_w, (int n div ncols) * frame_h)"
  let ?rects1 = "rects @ [cell_rect frame_w frame_h ncols n]"
  have step: "paste_loop frame_w frame_h ncols (enumerate n (f # frames)) atlas rects
      = paste_loop frame_w frame_h ncols (enumerate (Suc n) frames) ?atlas1 ?rects1"
    using Cons.prems by (simp add: py_mod_def py_floordiv_def cell_rect_def Let_def)
  from Cons.IH [OF Cons.prems, of "Suc n" ?atlas1 ?rects1]
  obtain atlas' where res: "paste_loop frame_w frame_h ncols (enumerate (Suc n) frames) ?atlas1 ?rects1
      = Inr (atlas', ?rects1 @ map (cell_rect frame_w frame_h ncols) [Suc n..<Suc n + length frames])"
    and sz: "im_width atlas' = im_width ?atlas1" "im_height atlas' = im_height ?atlas1"
    by blast
  have upt: "[n..<n + length (f # frames)] = n # [Suc n..<Suc n + length frames]"
    by (simp add: upt_rec)
  have "im_width ?atlas1 = im_width atlas" "im_height ?atlas1 = im_height atlas"
    by (simp_all add: paste_def)
  with step res sz upt show ?case by simp
qed

lemma pack_success:
  assumes "ncols \<noteq> 0"
    and "ceil_truediv (int (length frames)) ncols = Inr rows"
    and "Image_new (ncols * frame_w, rows * frame_h) (0, 0, 0, 0) = Inr blank"
  shows "\<exists>atlas. paste_frames_to_atlas frames frame_w frame_h ncols
            = Inr (atlas, map (cell_rect frame_w frame_h ncols) [0..<length frames])
          \<and> im_width atlas = ncols * frame_w
          \<and> im_height atlas = rows * frame_h"
proof -
  from assms(3) have blank: "blank = solid (ncols * frame_w) (rows * frame_h) (0, 0, 0, 0)"
    by (simp add: Image_new_Inr)
  have unfold: "paste_frames_to_atlas frames frame_w frame_h ncols
      = paste_loop frame_w frame_h ncols (enumerate 0 frames) blank []"
    using assms(2,3) by (simp add: paste_frames_to_atlas_def Let_def)
  from paste_loop_rects [OF assms(1), of frame_w frame_h 0 frames blank "[]"]
  show ?thesis unfolding unfold by (simp add: blank solid_def)
qed

lemma pack_InrD:
  assumes "paste_frames_to_atlas frames frame_w frame_h ncols = Inr (atlas, rects)"
  obtains rows where "ncols \<noteq> 0"
    and "ceil_truediv (int (length frames)) ncols = Inr rows"
    and "Image_new (ncols * frame_w, rows * frame_h) (0, 0, 0, 0)
           = Inr (solid (ncols * frame_w) (rows * frame_h) (0, 0, 0, 0))"
    and "paste_loop frame_w frame_h ncols (enumerate 0 frames)
           (solid (ncols * frame_w) (rows * frame_h) (0, 0, 0, 0)) [] = Inr (atlas, rects)"
    and "rects = map (cell_rect frame_w frame_h ncols) [0..<length frames]"
    and "im_width atlas = ncols * frame_w"
    and "im_height atlas = rows * frame_h"
proof -
  have c: "ncols \<noteq> 0"
  proof
    assume "ncols = 0"
    with assms show False by (simp add: paste_frames_to_atlas_def ceil_truediv_def)
  qed
  from assms obtain rows where rows: "ceil_truediv (int (length frames)) ncols = Inr rows"
    by (cases "ceil_truediv (int (length frames)) ncols")
      (simp_all add: paste_frames_to_atlas_def)
  from assms rows obtain blank
    where new: "Image_new (ncols * frame_w, rows * frame_h) (0, 0, 0, 0) = Inr blank"
    by (cases "Image_new (ncols * frame_w, rows * frame_h) (0, 0, 0, 0)")
      (simp_all add: paste_frames_to_atlas_def Let_def)
  then have blank: "blank = solid (ncols * frame_w) (rows * frame_h) (0, 0, 0, 0)"
    by (simp add: Image_new_Inr)
  from assms rows new have loop: "paste_loop frame_w frame_h ncols (enumerate 0 frames)
      (solid (ncols * frame_w) (rows * frame_h) (0, 0, 0, 0)) [] = Inr (atlas, rects)"
    by (simp add: paste_frames_to_atlas_def Let_def blank)
  from pack_success [OF c rows new] assms
  have "rects = map (cell_rect frame_w frame_h ncols) [0..<length frames]"
    and "im_width atlas = ncols * frame_w" and "im_height atlas = rows * frame_h"
    by auto
  with c rows new blank loop that show thesis by simp
qed

lemma stripe_overlap_eq:
  fixes a b w :: int
  assumes "max (a * w) (b * w) < min (a * w + w) (b * w + w)"
  shows "a = b"
proof -
  from assms have lt: "a * w < b * w + w" "b * w < a * w + w" and "a * w < a * w + w"
    by auto
  then have w: "0 < w" by simp
  from lt have "a * w < (b + 1) * w" "b * w < (a + 1) * w"
    by (simp_all add: algebra_simps)
  with w have "a < b + 1" "b < a + 1"
    by (simp_all add: mult_less_cancel_right)
  then show ?thesis by simp
qed

lemma cell_rect_overlap_eq:
  assumes "rects_overlap (cell_rect frame_w frame_h ncols i) (cell_rect frame_w frame_h ncols j)"
  shows "i = j"
proof -
  from assms have
    "max (int i mod ncols * frame_w) (int j mod ncols * frame_w)
       < min (int i mod ncols * frame_w + frame_w) (int j mod ncols * frame_w + frame_w)"
    and "max (int i div ncols * frame_h) (int j div ncols * frame_h)
       < min (int i div ncols * frame_h + frame_h) (int j div ncols * frame_h + frame_h)"
    unfolding rects_overlap_def cell_rect_def prod.case by blast+
  from this [THEN stripe_overlap_eq] have m: "int i mod ncols = int j mod ncols" and d: "int i div ncols = int j div ncols"
    by simp_all
  have "int i = ncols * (int i div ncols) + int i mod ncols" by simp
  also have "\<dots> = ncols * (int j div ncols) + int j mod ncols" by (simp only: m d)
  also have "\<dots> = int j" by simp
  finally show ?thesis by simp
qed

subsection \<open>The packer\<close>

text \<open>
  C9. With \<open>cols = 0\<close> the packer raises \<^verbatim>\<open>ZeroDivisionError\<close> for every frame list
  and every frame size: the division in \<^verbatim>\<open>math.ceil(len(frames) / cols)\<close> is the
  first statement, so no bitmap and no rectangle exists yet, and \<^verbatim>\<open>idx % cols\<close> in
  the loop would raise the same error. No column count below 1 makes the packer total:
  each one fails on the empty frame list with frames of size 1 by 1.
\<close>

theorem pack_zero_columns:
  "paste_frames_to_atlas frames frame_w frame_h 0 = Inl ZeroDivisionError
   \<and> ceil_truediv (int (length frames)) 0 = Inl ZeroDivisionError
   \<and> py_mod (int idx) 0 = Inl ZeroDivisionError
   \<and> (ncols < 1 \<longrightarrow> isl (paste_frames_to_atlas [] 1 1 ncols))"
  by (simp add: paste_frames_to_atlas_def ceil_truediv_def py_mod_def Image_new_def)

theorem pack_zero_columns_witness:
  "(- 3 :: int) < 1 \<and> isl (paste_frames_to_atlas [] 1 1 (- 3))
   \<and> paste_frames_to_atlas [solid 1 1 (0, 0, 0, 0)] 1 1 0 = Inl ZeroDivisionError"
  using pack_zero_columns [of "[solid 1 1 (0, 0, 0, 0)]" 1 1 0 "- 3"] by simp

text \<open>
  C1. For a column count of at least 1, the rectangles that the packer returns for two
  different positions of the frame list do not overlap: they share no pixel.
\<close>

theorem pack_rects_disjoint:
  assumes "1 \<le> ncols"
    and "paste_frames_to_atlas frames frame_w frame_h ncols = Inr (atlas, rects)"
    and "i < length rects" and "j < length rects" and "i \<noteq> j"
  shows "\<not> rects_overlap (rects ! i) (rects ! j)
         \<and> (\<forall>p. \<not> (in_rect (rects ! i) p \<and> in_rect (rects ! j) p))"
proof -
  from assms(2)
  have rects: "rects = map (cell_rect frame_w frame_h ncols) [0..<length frames]"
    by (rule pack_InrD)
  with assms(3,4) have "rects ! i = cell_rect frame_w frame_h ncols i"
    and "rects ! j = cell_rect frame_w frame_h ncols j"
    by simp_all
  with assms(5) have "\<not> rects_overlap (rects ! i) (rects ! j)"
    using cell_rect_overlap_eq by metis
  then show ?thesis by (simp add: rects_overlap_iff)
qed

lemma three_frames:
  "\<exists>atlas. paste_frames_to_atlas
       [solid 2 2 (255, 0, 0, 255), solid 2 2 (0, 255, 0, 255), solid 2 2 (0, 0, 255, 255)] 2 2 2
     = Inr (atlas, [(0, 0, 2, 2), (2, 0, 2, 2), (0, 2, 2, 2)])"
proof -
  let ?F = "[solid 2 2 (255, 0, 0, 255), solid 2 2 (0, 255, 0, 255), solid 2 2 (0, 0, 255, 255)]"
  have rows: "ceil_truediv (int (length ?F)) 2 = Inr 2"
    using ceil_truediv_exact [of 3 2] by simp
  have new: "Image_new (2 * 2, 2 * 2) (0, 0, 0, 0) = Inr (solid 4 4 (0, 0, 0, 0))"
    by (simp add: Image_new_Inr)
  from pack_success [OF _ rows new] show ?thesis
    by (auto simp: cell_rect_def)
qed

theorem pack_rects_disjoint_witness:
  "(1 :: int) \<le> 2
   \<and> map_sum id snd (paste_frames_to_atlas
        [solid 2 2 (255, 0, 0, 255), solid 2 2 (0, 255, 0, 255), solid 2 2 (0, 0, 255, 255)] 2 2 2)
      = Inr [(0, 0, 2, 2), (2, 0, 2, 2), (0, 2, 2, 2)]
   \<and> \<not> rects_overlap (0, 0, 2, 2) (0, 2, 2, 2)"
proof -
  let ?F = "[solid 2 2 (255, 0, 0, 255), solid 2 2 (0, 255, 0, 255), solid 2 2 (0, 0, 255, 255)]"
  let ?R = "[(0, 0, 2, 2), (2, 0, 2, 2), (0, 2, 2, 2)] :: rect list"
  from three_frames obtain atlas where r: "paste_frames_to_atlas ?F 2 2 2 = Inr (atlas, ?R)"
    by blast
  from pack_rects_disjoint [OF _ r, of 0 2]
  have "\<not> rects_overlap (?R ! 0) (?R ! 2)" by simp
  with r show ?thesis by simp
qed

text \<open>
  C6, as amended. For a column count of at least 1, whenever the packer returns: the
  atlas is \<open>cols * frame_w\<close> wide and \<open>rows * frame_h\<close> high, where \<open>rows\<close> is what
  \<^verbatim>\<open>math.ceil(n / cols)\<close> computes for \<open>n\<close> frames; for fewer than \<open>2 ^ 53\<close> frames
  and fewer than \<open>2 ^ 1075\<close> columns this is \<open>\<lceil>n / cols\<rceil>\<close>; and the rectangle list has
  one entry per frame, in the order of the frames, entry \<open>idx\<close> being
  \<open>((idx mod cols) * frame_w, (idx div cols) * frame_h, frame_w, frame_h)\<close>.
\<close>

theorem pack_layout:
  assumes "1 \<le> ncols"
    and "paste_frames_to_atlas frames frame_w frame_h ncols = Inr (atlas, rects)"
  shows "(\<exists>rows. ceil_truediv (int (length frames)) ncols = Inr rows
            \<and> im_size atlas = (ncols * frame_w, rows * frame_h))
         \<and> (int (length frames) < 2 ^ 53 \<and> ncols < 2 ^ 1075 \<longrightarrow>
              im_size atlas
                = (ncols * frame_w, \<lceil>real (length frames) / real_of_int ncols\<rceil> * frame_h))
         \<and> length rects = length frames
         \<and> (\<forall>idx < length frames.
               rects ! idx
                 = ((int idx mod ncols) * frame_w, (int idx div ncols) * frame_h,
                    frame_w, frame_h))"
proof -
  from assms(2) obtain rows
    where rows: "ceil_truediv (int (length frames)) ncols = Inr rows"
      and rects: "rects = map (cell_rect frame_w frame_h ncols) [0..<length frames]"
      and w: "im_width atlas = ncols * frame_w" and h: "im_height atlas = rows * frame_h"
    by (rule pack_InrD)
  from w h have size: "im_size atlas = (ncols * frame_w, rows * frame_h)"
    by (simp add: im_size_def)
  have "rows = \<lceil>real (length frames) / real_of_int ncols\<rceil>"
    if "int (length frames) < 2 ^ 53" and "ncols < 2 ^ 1075"
    using ceil_truediv_real [of ncols "length frames"] that assms(1) rows by simp
  with rows size rects show ?thesis by (simp add: cell_rect_def)
qed

theorem pack_layout_witness:
  "(1 :: int) \<le> 2
   \<and> map_sum id (\<lambda>r. (im_size (fst r), snd r)) (paste_frames_to_atlas
        [solid 2 2 (255, 0, 0, 255), solid 2 2 (0, 255, 0, 255), solid 2 2 (0, 0, 255, 255)] 2 2 2)
      = Inr ((4, 4), [(0, 0, 2, 2), (2, 0, 2, 2), (0, 2, 2, 2)])"
proof -
  let ?F = "[solid 2 2 (255, 0, 0, 255), solid 2 2 (0, 255, 0, 255), solid 2 2 (0, 0, 255, 255)]"
  let ?R = "[(0, 0, 2, 2), (2, 0, 2, 2), (0, 2, 2, 2)] :: rect list"
  from three_frames obtain atlas where r: "paste_frames_to_atlas ?F 2 2 2 = Inr (atlas, ?R)"
    by blast
  from pack_layout [OF _ r] have "im_size atlas = (4, 4)"
    by simp
  with r show ?thesis by simp
qed

text \<open>
  The claim C6 as it is written fails in two ways. The packer need not return: with a
  frame height of \<open>- 1\<close> it asks \<^verbatim>\<open>Image.new\<close> for a bitmap of negative height. And
  when it returns, the height need not be \<open>\<lceil>n / cols\<rceil> * frame_h\<close>: for one frame of
  width 0 and height 1 on \<open>2 ^ 1100\<close> columns the division underflows to \<open>0.0\<close>, and
  the atlas is 0 high where the claim says 1.
\<close>

theorem pack_layout_counterexample:
  "paste_frames_to_atlas [solid 1 1 (0, 0, 0, 255)] 1 (- 1) 1 = Inl ValueError
   \<and> map_sum id (\<lambda>r. im_size (fst r))
        (paste_frames_to_atlas [solid 0 1 (0, 0, 0, 255)] 0 1 (2 ^ 1100)) = Inr (0, 0)
   \<and> \<lceil>real (length [solid 0 1 (0, 0, 0, 255)]) / real_of_int (2 ^ 1100)\<rceil> * 1 = (1 :: int)"
proof -
  have "ceil_truediv (int (length [solid 1 1 (0, 0, 0, 255)])) 1 = Inr 1"
    using ceil_truediv_exact [of 1 1] by simp
  then have a: "paste_frames_to_atlas [solid 1 1 (0, 0, 0, 255)] 1 (- 1) 1 = Inl ValueError"
    by (simp add: paste_frames_to_atlas_def Image_new_def)
  have rows: "ceil_truediv (int (length [solid 0 1 (0, 0, 0, 255)])) (2 ^ 1100) = Inr 0"
    using ceil_truediv_underflow by simp
  have new: "Image_new (2 ^ 1100 * 0, 0 * 1) (0, 0, 0, 0) = Inr (solid 0 0 (0, 0, 0, 0))"
    by (simp add: Image_new_Inr)
  from pack_success [OF _ rows new] obtain atlas rects
    where "paste_frames_to_atlas [solid 0 1 (0, 0, 0, 255)] 0 1 (2 ^ 1100) = Inr (atlas, rects)"
      and "im_width atlas = 0" and "im_height atlas = 0"
    by auto
  then have b: "map_sum id (\<lambda>r. im_size (fst r))
        (paste_frames_to_atlas [solid 0 1 (0, 0, 0, 255)] 0 1 (2 ^ 1100)) = Inr (0, 0)"
    by (simp add: im_size_def)
  have "\<lceil>real 1 / real_of_int (2 ^ 1100)\<rceil> = - ((- int 1) div 2 ^ 1100)"
    using ceiling_divide_eq_div [of "int 1" "2 ^ 1100", where ?'a = real] by simp
  also have "\<dots> = 1" by simp
  finally have c: "\<lceil>real (length [solid 0 1 (0, 0, 0, 255)]) / real_of_int (2 ^ 1100)\<rceil> * 1
      = (1 :: int)"
    by simp
  from a b c show ?thesis by (intro conjI)
qed

text \<open>
  C7, as amended. For the empty frame list and a column count of at least 1, \<open>rows\<close> is 0
  and the packer makes one call that can fail, \<^verbatim>\<open>Image.new\<close> for the size
  \<open>(cols * frame_w, 0)\<close>: it fails when and as that call fails, and whenever it returns,
  it returns the transparent bitmap of width \<open>cols * frame_w\<close> and height 0, and the
  empty rectangle list.
\<close>

theorem pack_empty:
  assumes "1 \<le> ncols"
  shows "ceil_truediv (int (length ([] :: img list))) ncols = Inr 0
         \<and> paste_frames_to_atlas [] frame_w frame_h ncols
             = (case Image_new (ncols * frame_w, 0) (0, 0, 0, 0) of
                  Inl e \<Rightarrow> Inl e
                | Inr blank \<Rightarrow> Inr (blank, []))
         \<and> (paste_frames_to_atlas [] frame_w frame_h ncols = Inr (atlas, rects) \<longrightarrow>
              atlas = solid (ncols * frame_w) 0 (0, 0, 0, 0) \<and> rects = [])"
proof -
  from assms have z: "ceil_truediv 0 ncols = Inr 0"
    by (simp add: ceil_truediv_zero)
  then have rows: "ceil_truediv (int (length ([] :: img list))) ncols = Inr 0"
    by simp
  have eq: "paste_frames_to_atlas [] frame_w frame_h ncols
      = (case Image_new (ncols * frame_w, 0) (0, 0, 0, 0) of
           Inl e \<Rightarrow> Inl e
         | Inr blank \<Rightarrow> Inr (blank, []))"
    by (cases "Image_new (ncols * frame_w, 0) (0, 0, 0, 0)")
      (simp_all add: paste_frames_to_atlas_def z)
  have "atlas = solid (ncols * frame_w) 0 (0, 0, 0, 0) \<and> rects = []"
    if r: "paste_frames_to_atlas [] frame_w frame_h ncols = Inr (atlas, rects)"
  proof (cases "Image_new (ncols * frame_w, 0) (0, 0, 0, 0)")
    case (Inl e)
    with r eq show ?thesis by simp
  next
    case (Inr blank)
    then have "blank = solid (ncols * frame_w) 0 (0, 0, 0, 0)"
      by (simp add: Image_new_Inr)
    with r eq Inr show ?thesis by simp
  qed
  with rows eq show ?thesis by (intro conjI impI) simp_all
qed

theorem pack_empty_witness:
  "(1 :: int) \<le> 10
   \<and> paste_frames_to_atlas [] 64 64 10 = Inr (solid 640 0 (0, 0, 0, 0), [])"
proof -
  have "Image_new (10 * 64, 0) (0, 0, 0, 0) = Inr (solid 640 0 (0, 0, 0, 0))"
    by (simp add: Image_new_Inr)
  with pack_empty [of 10 64 64 "solid 640 0 (0, 0, 0, 0)" "[]"] show ?thesis by simp
qed

text \<open>
  The claim C7 as it is written, that the packer does not fail on the empty list, fails:
  with a frame width of \<open>- 1\<close> \<^verbatim>\<open>Image.new\<close> raises \<^verbatim>\<open>ValueError\<close>, and with a
  frame width of \<open>2 ^ 31\<close> it raises \<^verbatim>\<open>OverflowError\<close>.
\<close>

theorem pack_empty_counterexample:
  "paste_frames_to_atlas [] (- 1) 64 10 = Inl ValueError
   \<and> paste_frames_to_atlas [] 2147483648 1 1 = Inl OverflowError"
  by (simp add: paste_frames_to_atlas_def ceil_truediv_def Image_new_def c_int_def)

subsection \<open>The frame extractor\<close>

lemma range_py_upt: "range_py n = map int [0..<nat n]"
  by (auto simp: range_py_def list_eq_iff_nth_eq)

lemma frame_box_eq:
  "frame_box frame_w frame_h row scol i
     = ((scol + i) * frame_w, row * frame_h,
        (scol + i) * frame_w + frame_w, row * frame_h + frame_h)"
  by (simp add: frame_box_def Let_def)

lemma crop_check_ok:
  assumes "0 \<le> w" and "0 \<le> h" and "max 1 w * max 1 h \<le> 178956970"
    and "c_int x" and "c_int y" and "c_int (x + w)" and "c_int (y + h)"
  shows "crop_check (x, y, x + w, y + h) = None"
  using assms by (simp add: crop_check_def MAX_IMAGE_PIXELS_def)

lemma slice_loop_Inr:
  "slice_loop sheet frame_w frame_h row scol js acc = Inr frames
     \<longleftrightarrow> (\<forall>i \<in> set js. crop_check (frame_box frame_w frame_h row scol i) = None)
         \<and> frames = acc @ map (\<lambda>i. crop_region sheet (frame_box frame_w frame_h row scol i)) js"
proof (induction js arbitrary: acc)
  case Nil
  show ?case by auto
next
  case (Cons i js)
  show ?case
  proof (cases "crop_check (frame_box frame_w frame_h row scol i)")
    case None
    then have "crop sheet (frame_box frame_w frame_h row scol i)
        = Inr (crop_region sheet (frame_box frame_w frame_h row scol i))"
      by (simp add: crop_def)
    with None Cons.IH show ?thesis by simp
  next
    case (Some e)
    then have "crop sheet (frame_box frame_w frame_h row scol i) = Inl e"
      by (simp add: crop_def)
    with Some show ?thesis by simp
  qed
qed

lemma slice_frames_Inr:
  "slice_frames sheet frame_w frame_h row scol count = Inr frames
     \<longleftrightarrow> (\<forall>i < nat count. crop_check (frame_box frame_w frame_h row scol (int i)) = None)
         \<and> frames = map (\<lambda>i. crop_region sheet (frame_box frame_w frame_h row scol (int i)))
                       [0..<nat count]"
  by (auto simp: slice_frames_def slice_loop_Inr range_py_upt comp_def)

lemma slice_frames_first:
  assumes "0 < count" and "crop_check (frame_box frame_w frame_h row scol 0) = Some e"
  shows "slice_frames sheet frame_w frame_h row scol count = Inl e"
proof -
  from assms(1) have "[0..<nat count] = 0 # [Suc 0..<nat count]"
    by (simp add: upt_conv_Cons)
  with assms(2) show ?thesis
    by (simp add: slice_frames_def range_py_upt crop_def)
qed

text \<open>
  C3, as amended. For every sheet, frame size, row and start column and every count that
  is not negative: whenever \<^verbatim>\<open>slice_frames\<close> returns, it returns exactly \<open>count\<close>
  frames, and frame \<open>i\<close> is what \<^verbatim>\<open>crop\<close> returns for the box with top-left corner
  \<open>((start_col + i) * frame_w, row * frame_h)\<close> and size \<open>frame_w\<close> by \<open>frame_h\<close>;
  and it returns whenever each of these crops returns.
\<close>

theorem slice_frames_crops:
  assumes "0 \<le> count"
  shows "(slice_frames sheet frame_w frame_h row scol count = Inr frames \<longrightarrow>
            int (length frames) = count
            \<and> (\<forall>i < nat count.
                  crop sheet ((scol + int i) * frame_w, row * frame_h,
                              (scol + int i) * frame_w + frame_w, row * frame_h + frame_h)
                    = Inr (frames ! i)
                  \<and> im_size (frames ! i) = (frame_w, frame_h)))
         \<and> ((\<forall>i < nat count. \<exists>f.
                 crop sheet ((scol + int i) * frame_w, row * frame_h,
                             (scol + int i) * frame_w + frame_w, row * frame_h + frame_h)
                   = Inr f)
              \<longrightarrow> (\<exists>fs. slice_frames sheet frame_w frame_h row scol count = Inr fs))"
  using assms by (simp add: slice_frames_Inr frame_box_eq crop_Inr)

theorem slice_frames_crops_witness:
  "(0 :: int) \<le> 3
   \<and> map_sum id length (slice_frames (solid 8 8 (7, 7, 7, 255)) 2 2 1 0 3) = Inr 3"
proof -
  let ?S = "solid 8 8 (7, 7, 7, 255)"
  have "crop_check (frame_box 2 2 1 0 (int i)) = None" if "i < nat 3" for i
    unfolding frame_box_eq using that by (intro crop_check_ok) (simp_all add: c_int_def)
  then obtain fs where fs: "slice_frames ?S 2 2 1 0 3 = Inr fs"
    by (simp add: slice_frames_Inr)
  with slice_frames_crops [of 3 ?S 2 2 1 0 fs] have "int (length fs) = 3" by simp
  with fs show ?thesis by simp
qed

text \<open>
  The claim C3 as it is written, a list of frames for every frame width and height,
  fails: for a frame width of \<open>- 1\<close> the first box has its right edge left of its left
  edge and \<^verbatim>\<open>crop\<close> raises \<^verbatim>\<open>ValueError\<close>, and for frames of 20000 by 20000
  pixels it raises \<^verbatim>\<open>DecompressionBombError\<close>.
\<close>

theorem slice_frames_crops_counterexample:
  "slice_frames (solid 8 8 (7, 7, 7, 255)) (- 1) 2 0 0 1 = Inl ValueError
   \<and> slice_frames (solid 8 8 (7, 7, 7, 255)) 20000 20000 0 0 1 = Inl DecompressionBombError"
proof -
  have "crop_check (frame_box (- 1) 2 0 0 0) = Some ValueError"
    by (simp add: frame_box_eq crop_check_def)
  moreover have "crop_check (frame_box 20000 20000 0 0 0) = Some DecompressionBombError"
    by (simp add: frame_box_eq crop_check_def MAX_IMAGE_PIXELS_def)
  ultimately show ?thesis by (simp add: slice_frames_first)
qed

subsection \<open>Names\<close>

lemma digit_val_char: "d < 10 \<Longrightarrow> digit_val (digit_char d) = d"
proof -
  assume "d < 10"
  then have "d \<in> {0,1,2,3,4,5,6,7,8,9}" by auto
  then show ?thesis by (auto simp: digit_val_def digit_char_def)
qed

lemma dec_value_snoc: "dec_value (s @ [c]) = 10 * dec_value s + digit_val c"
  by (simp add: dec_value_def)

lemma dec_value_str_nat: "dec_value (str_nat n) = n"
proof (induction n rule: str_nat.induct)
  case (1 n)
  show ?case
  proof (cases "n < 10")
    case True
    then show ?thesis by (simp add: str_nat.simps [of n] dec_value_def digit_val_char)
  next
    case False
    with 1 show ?thesis
      by (simp add: str_nat.simps [of n] dec_value_snoc digit_val_char)
  qed
qed

lemma dec_value_zeros: "dec_value (replicate k (CHR ''0'') @ s) = dec_value s"
proof -
  have "foldl (\<lambda>a c. 10 * a + digit_val c) 0 (replicate k (CHR ''0'')) = 0"
    by (induction k) (simp_all add: digit_val_def)
  then show ?thesis by (simp add: dec_value_def)
qed

lemma dec_value_fmt: "dec_value (fmt_04d i) = i"
  by (simp add: fmt_04d_def Let_def dec_value_zeros dec_value_str_nat)


lemma fmt_04d_inj: "fmt_04d i = fmt_04d j \<Longrightarrow> i = j"
  by (metis dec_value_fmt)

lemma fmt_04d_8: "fmt_04d 8 = ''0008''"
  by (simp add: fmt_04d_def str_nat.simps digit_char_def numeral_3_eq_3)

lemma walk_name_inj: "walk_name idt d i = walk_name idt d j \<longleftrightarrow> i = j"
  by (auto simp: walk_name_def dest: fmt_04d_inj)

lemma walk_names_distinct: "distinct (map (walk_name idt d) [0..<n])"
  by (simp add: distinct_map inj_on_def walk_name_inj)


lemma emit_walk_eq:
  "emit_walk idt d (enumerate n fs) (ns, ims)
     = (ns @ map (walk_name idt d) [n..<n + length fs], ims @ fs)"
proof (induction fs arbitrary: n ns ims)
  case Nil
  then show ?case by simp
next
  case (Cons f fs)
  have "[n..<n + length (f # fs)] = n # [Suc n..<Suc n + length fs]"
    by (simp add: upt_rec)
  with Cons.IH [of "Suc n"] show ?case by simp
qed

lemma pad_walk_id: "length fs = nat n \<Longrightarrow> pad_walk n fs = fs"
  by (auto simp: pad_walk_def)

lemma walk_tail_eq:
  "length fs = nat n \<Longrightarrow>
   walk_tail idt d n fs (ns, ims) = (ns @ map (walk_name idt d) [0..<nat n], ims @ fs)"
  by (simp add: walk_tail_def pad_walk_id emit_walk_eq)

lemma names_distinct:
  "distinct
     ([idt @ ''-front'', idt @ ''-back'', idt @ ''-left'', idt @ ''-right'']
      @ map (\<lambda>i. idt @ ''-front-walk-'' @ fmt_04d i) [0..<n]
      @ map (\<lambda>i. idt @ ''-back-walk-'' @ fmt_04d i) [0..<n]
      @ map (\<lambda>i. idt @ ''-left-walk-'' @ fmt_04d i) [0..<n]
      @ map (\<lambda>i. idt @ ''-right-walk-'' @ fmt_04d i) [0..<n])"
proof -
  have inj: "distinct (map (\<lambda>i. idt @ d @ fmt_04d i) [0..<n])" for d
    by (auto simp: distinct_map inj_on_def dest: fmt_04d_inj)
  from inj [of "''-front-walk-''"] inj [of "''-back-walk-''"]
    inj [of "''-left-walk-''"] inj [of "''-right-walk-''"]
  show ?thesis by auto
qed

lemma fmt_04d_0: "fmt_04d 0 = ''0000''"
  by (simp add: fmt_04d_def str_nat.simps digit_char_def numeral_3_eq_3)

lemma length_str_nat: "n < 10000 \<Longrightarrow> length (str_nat n) \<le> 4"
  by (simp add: str_nat.simps [of n] str_nat.simps [of "n div 10"]
        str_nat.simps [of "n div 10 div 10"] str_nat.simps [of "n div 10 div 10 div 10"])

lemma length_fmt_04d: "n < 10000 \<Longrightarrow> length (fmt_04d n) = 4"
  using length_str_nat [of n] by (simp add: fmt_04d_def Let_def)

subsection \<open>The two loops of \<^verbatim>\<open>main\<close>\<close>

lemma static_box_eq:
  "static_box a row
     = (static_col a * frame_width a, row * frame_height a,
        static_col a * frame_width a + frame_width a, row * frame_height a + frame_height a)"
  by (simp add: static_box_def Let_def)

lemma static_cell_eq: "crop_region sheet (static_box a row) = static_cell a sheet row"
  by (simp add: static_box_eq static_cell_def cell_at_def)

lemma walk_cell_eq:
  "crop_region sheet (frame_box (frame_width a) (frame_height a) row (start_col a) (int i))
     = walk_cell a sheet row i"
  by (simp add: frame_box_eq walk_cell_def cell_at_def)

lemma static_loop_Inr:
  "static_loop a sheet ds (ns, ims) = Inr r
     \<longleftrightarrow> (\<forall>p \<in> set ds. crop_check (static_box a (snd p)) = None)
         \<and> r = (ns @ map (\<lambda>p. static_name (ident a) (fst p)) ds,
                ims @ map (\<lambda>p. static_cell a sheet (snd p)) ds)"
proof (induction ds arbitrary: ns ims)
  case Nil
  show ?case by auto
next
  case (Cons p ds)
  obtain d row where p: "p = (d, row)" by (cases p)
  show ?case
  proof (cases "crop_check (static_box a row)")
    case None
    then have "crop sheet (static_box a row) = Inr (static_cell a sheet row)"
      by (simp add: crop_def static_cell_eq)
    with None Cons.IH show ?thesis by (simp add: p)
  next
    case (Some e)
    then have "crop sheet (static_box a row) = Inl e"
      by (simp add: crop_def)
    with Some show ?thesis by (simp add: p)
  qed
qed

lemma slice_frames_cells:
  "slice_frames sheet (frame_width a) (frame_height a) row (start_col a) (walk_frames a)
       = Inr frames
     \<longleftrightarrow> (\<forall>i < nat (walk_frames a).
            crop_check (frame_box (frame_width a) (frame_height a) row (start_col a) (int i))
              = None)
         \<and> frames = map (walk_cell a sheet row) [0..<nat (walk_frames a)]"
  by (simp add: slice_frames_Inr walk_cell_eq)

lemma walk_loop_Inr:
  "walk_loop a sheet ds (ns, ims) = Inr r
     \<longleftrightarrow> (\<forall>p \<in> set ds. \<forall>i < nat (walk_frames a).
            crop_check (frame_box (frame_width a) (frame_height a) (snd p) (start_col a) (int i))
              = None)
         \<and> r = (ns @ concat (map (\<lambda>p. map (walk_name (ident a) (fst p))
                                         [0..<nat (walk_frames a)]) ds),
                ims @ concat (map (\<lambda>p. map (walk_cell a sheet (snd p))
                                          [0..<nat (walk_frames a)]) ds))"
proof (induction ds arbitrary: ns ims)
  case Nil
  show ?case by auto
next
  case (Cons p ds)
  obtain d row where p: "p = (d, row)" by (cases p)
  let ?call = "slice_frames sheet (frame_width a) (frame_height a) row (start_col a)
      (walk_frames a)"
  show ?case
  proof (cases ?call)
    case (Inl e)
    then have "\<not> (\<forall>i < nat (walk_frames a).
        crop_check (frame_box (frame_width a) (frame_height a) row (start_col a) (int i))
          = None)"
      using slice_frames_cells [of sheet a row] by auto
    with Inl show ?thesis by (auto simp: p)
  next
    case (Inr frames)
    then have ok: "\<forall>i < nat (walk_frames a).
        crop_check (frame_box (frame_width a) (frame_height a) row (start_col a) (int i))
          = None"
      and frames: "frames = map (walk_cell a sheet row) [0..<nat (walk_frames a)]"
      by (simp_all add: slice_frames_cells)
    from frames have "length frames = nat (walk_frames a)" by simp
    then have "walk_tail (ident a) d (walk_frames a) frames (ns, ims)
        = (ns @ map (walk_name (ident a) d) [0..<nat (walk_frames a)], ims @ frames)"
      by (rule walk_tail_eq)
    with Inr ok frames Cons.IH show ?thesis by (simp add: p)
  qed
qed

lemma walk_name_fun: "walk_name idt d = (\<lambda>i. idt @ ''-'' @ d @ ''-walk-'' @ fmt_04d i)"
  by (rule ext) (simp add: walk_name_def)

lemma build_Inr:
  "build_name_and_frame_lists a sheet = Inr (names, frames)
     \<longleftrightarrow> (\<forall>row \<in> {front_row a, back_row a, left_row a, right_row a}.
            crop_check (static_box a row) = None
            \<and> (\<forall>i < nat (walk_frames a).
                  crop_check (frame_box (frame_width a) (frame_height a) row
                                (start_col a) (int i)) = None))
         \<and> names =
             [ident a @ ''-front'', ident a @ ''-back'', ident a @ ''-left'', ident a @ ''-right'']
             @ map (\<lambda>i. ident a @ ''-front-walk-'' @ fmt_04d i) [0..<nat (walk_frames a)]
             @ map (\<lambda>i. ident a @ ''-back-walk-'' @ fmt_04d i) [0..<nat (walk_frames a)]
             @ map (\<lambda>i. ident a @ ''-left-walk-'' @ fmt_04d i) [0..<nat (walk_frames a)]
             @ map (\<lambda>i. ident a @ ''-right-walk-'' @ fmt_04d i) [0..<nat (walk_frames a)]
         \<and> frames =
             [static_cell a sheet (front_row a), static_cell a sheet (back_row a),
              static_cell a sheet (left_row a), static_cell a sheet (right_row a)]
             @ map (walk_cell a sheet (front_row a)) [0..<nat (walk_frames a)]
             @ map (walk_cell a sheet (back_row a)) [0..<nat (walk_frames a)]
             @ map (walk_cell a sheet (left_row a)) [0..<nat (walk_frames a)]
             @ map (walk_cell a sheet (right_row a)) [0..<nat (walk_frames a)]"
proof (cases "static_loop a sheet (directions a) ([], [])")
  case (Inl e)
  then have "\<not> (\<forall>p \<in> set (directions a). crop_check (static_box a (snd p)) = None)"
    using static_loop_Inr [of a sheet "directions a" "[]" "[]"] by auto
  with Inl show ?thesis
    by (auto simp: build_name_and_frame_lists_def directions_def)
next
  case (Inr st)
  then have ok: "\<forall>p \<in> set (directions a). crop_check (static_box a (snd p)) = None"
    and st: "st = ([] @ map (\<lambda>p. static_name (ident a) (fst p)) (directions a),
                   [] @ map (\<lambda>p. static_cell a sheet (snd p)) (directions a))"
    by (simp_all add: static_loop_Inr)
  have "build_name_and_frame_lists a sheet
      = walk_loop a sheet (directions a)
          ([] @ map (\<lambda>p. static_name (ident a) (fst p)) (directions a),
           [] @ map (\<lambda>p. static_cell a sheet (snd p)) (directions a))"
    using Inr st by (simp add: build_name_and_frame_lists_def)
  then have "build_name_and_frame_lists a sheet = Inr (names, frames)
      \<longleftrightarrow> (\<forall>p \<in> set (directions a). \<forall>i < nat (walk_frames a).
             crop_check (frame_box (frame_width a) (frame_height a) (snd p) (start_col a) (int i))
               = None)
          \<and> (names, frames)
              = (([] @ map (\<lambda>p. static_name (ident a) (fst p)) (directions a))
                   @ concat (map (\<lambda>p. map (walk_name (ident a) (fst p))
                                          [0..<nat (walk_frames a)]) (directions a)),
                 ([] @ map (\<lambda>p. static_cell a sheet (snd p)) (directions a))
                   @ concat (map (\<lambda>p. map (walk_cell a sheet (snd p))
                                           [0..<nat (walk_frames a)]) (directions a)))"
    by (simp only: walk_loop_Inr)
  with ok show ?thesis
    by (simp add: directions_def static_name_def walk_name_fun)
qed

lemma build_negative:
  assumes "frame_width a < 0 \<or> frame_height a < 0"
  shows "build_name_and_frame_lists a sheet = Inl ValueError"
proof -
  from assms have "crop_check (static_box a (front_row a)) = Some ValueError"
    unfolding static_box_eq by (rule crop_check_negative)
  then have "crop sheet (static_box a (front_row a)) = Inl ValueError"
    by (simp add: crop_def)
  then show ?thesis
    by (simp add: build_name_and_frame_lists_def directions_def)
qed

lemma hero_boxes:
  assumes "n \<le> 9" and "row \<in> {10, 8, 9, 11}"
  shows "crop_check (static_box (hero 2 n) row) = None"
    and "i < nat n \<Longrightarrow> crop_check (frame_box 2 2 row 1 (int i)) = None"
proof -
  from assms(2) have row: "8 \<le> row" "row \<le> 11" by auto
  then show "crop_check (static_box (hero 2 n) row) = None"
    unfolding static_box_eq by (intro crop_check_ok) (simp_all add: hero_def c_int_def)
  assume "i < nat n"
  with assms(1) have "int i < 9" by simp
  with row show "crop_check (frame_box 2 2 row 1 (int i)) = None"
    unfolding frame_box_eq by (intro crop_check_ok) (simp_all add: c_int_def)
qed

lemma hero_build:
  assumes "n \<le> 9"
  shows "\<exists>names frames.
           build_name_and_frame_lists (hero 2 n) sheet = Inr (names, frames)"
  using hero_boxes [OF assms] by (simp add: build_Inr) (simp add: hero_def)

subsection \<open>Names and frames built by \<^verbatim>\<open>main\<close>\<close>

text \<open>
  C4, as amended. Whenever the two loops of \<^verbatim>\<open>main\<close> get through all their crops,
  they return a list of names and a list of frames of the same length, in which position
  \<open>k\<close> of the one names position \<open>k\<close> of the other: first the static poses of front,
  back, left and right, named \<open>id-direction\<close>, then for front, back, left and right in
  this order the walk frames \<open>0, 1, \<dots>\<close>, named \<open>id-direction-walk-\<close> followed by the
  index in decimal, padded with zeros to four digits.
\<close>

theorem build_names_and_frames:
  assumes "build_name_and_frame_lists a sheet = Inr (names, frames)"
  shows "length names = length frames
         \<and> names =
             [ident a @ ''-front'', ident a @ ''-back'', ident a @ ''-left'', ident a @ ''-right'']
             @ map (\<lambda>i. ident a @ ''-front-walk-'' @ fmt_04d i) [0..<nat (walk_frames a)]
             @ map (\<lambda>i. ident a @ ''-back-walk-'' @ fmt_04d i) [0..<nat (walk_frames a)]
             @ map (\<lambda>i. ident a @ ''-left-walk-'' @ fmt_04d i) [0..<nat (walk_frames a)]
             @ map (\<lambda>i. ident a @ ''-right-walk-'' @ fmt_04d i) [0..<nat (walk_frames a)]
         \<and> frames =
             [static_cell a sheet (front_row a), static_cell a sheet (back_row a),
              static_cell a sheet (left_row a), static_cell a sheet (right_row a)]
             @ map (walk_cell a sheet (front_row a)) [0..<nat (walk_frames a)]
             @ map (walk_cell a sheet (back_row a)) [0..<nat (walk_frames a)]
             @ map (walk_cell a sheet (left_row a)) [0..<nat (walk_frames a)]
             @ map (walk_cell a sheet (right_row a)) [0..<nat (walk_frames a)]
         \<and> fmt_04d 0 = ''0000''
         \<and> (\<forall>i. dec_value (fmt_04d i) = i)
         \<and> (\<forall>i < 10000. length (fmt_04d i) = 4)"
proof -
  from assms [unfolded build_Inr] have "length names = length frames" by simp
  with assms [unfolded build_Inr] show ?thesis
    by (simp add: fmt_04d_0 dec_value_fmt length_fmt_04d)
qed

theorem build_names_and_frames_witness:
  "map_sum id fst (build_name_and_frame_lists (hero 2 1) (solid 8 8 (7, 7, 7, 255)))
     = Inr [''hero-front'', ''hero-back'', ''hero-left'', ''hero-right'',
            ''hero-front-walk-0000'', ''hero-back-walk-0000'',
            ''hero-left-walk-0000'', ''hero-right-walk-0000'']"
proof -
  let ?S = "solid 8 8 (7, 7, 7, 255)"
  from hero_build [of 1 ?S] obtain names frames
    where b: "build_name_and_frame_lists (hero 2 1) ?S = Inr (names, frames)"
    by auto
  from build_names_and_frames [OF b]
  have "names = [''hero-front'', ''hero-back'', ''hero-left'', ''hero-right'',
            ''hero-front-walk-0000'', ''hero-back-walk-0000'',
            ''hero-left-walk-0000'', ''hero-right-walk-0000'']"
    by (simp add: hero_def)
  with b show ?thesis by simp
qed

text \<open>
  The claim C4 as it is written, that the lists are always returned, fails: with a frame
  width of \<open>- 1\<close> the first \<^verbatim>\<open>crop\<close> raises.
\<close>

theorem build_names_and_frames_counterexample:
  "build_name_and_frame_lists (hero (- 1) 1) (solid 8 8 (7, 7, 7, 255)) = Inl ValueError"
  by (rule build_negative) (simp add: hero_def)

text \<open>
  C5. What follows the extraction of one direction: if nine walk frames were asked for and
  the list of extracted frames has eight elements, a ninth is appended that is the eighth
  frame itself, and it gets the name with index \<open>0008\<close>. In every other case the list is
  neither padded nor cut, and every frame gets the name of its index.
\<close>

theorem walk_padding:
  "(length frames = 8 \<longrightarrow>
      pad_walk 9 frames = frames @ [frames ! 7]
      \<and> length (pad_walk 9 frames) = 9
      \<and> walk_tail idt d 9 frames (ns, ims)
          = (ns @ map (walk_name idt d) [0..<9], ims @ frames @ [frames ! 7])
      \<and> walk_name idt d 8 = idt @ ''-'' @ d @ ''-walk-0008'')
   \<and> (\<not> (n = 9 \<and> length frames = 8) \<longrightarrow>
      pad_walk n frames = frames
      \<and> walk_tail idt d n frames (ns, ims)
          = (ns @ map (walk_name idt d) [0..<length frames], ims @ frames))"
proof -
  have "last frames = frames ! 7" if "length frames = 8"
    using that by (cases frames rule: rev_cases) (simp_all add: nth_append)
  then show ?thesis
    by (auto simp: pad_walk_def walk_tail_def emit_walk_eq walk_name_def fmt_04d_8)
qed

theorem walk_padding_witness:
  "length (map (\<lambda>c. solid 1 1 (c, 0, 0, 255)) [0, 1, 2, 3, 4, 5, 6, 7]) = 8
   \<and> pad_walk 9 (map (\<lambda>c. solid 1 1 (c, 0, 0, 255)) [0, 1, 2, 3, 4, 5, 6, 7]) ! 8
       = solid 1 1 (7, 0, 0, 255)
   \<and> fst (walk_tail ''hero'' ''front'' 9
            (map (\<lambda>c. solid 1 1 (c, 0, 0, 255)) [0, 1, 2, 3, 4, 5, 6, 7]) ([], [])) ! 8
       = ''hero-front-walk-0008''
   \<and> pad_walk 8 (map (\<lambda>c. solid 1 1 (c, 0, 0, 255)) [0, 1, 2, 3, 4, 5, 6, 7])
       = map (\<lambda>c. solid 1 1 (c, 0, 0, 255)) [0, 1, 2, 3, 4, 5, 6, 7]"
proof -
  let ?F = "map (\<lambda>c. solid 1 1 (c, 0, 0, 255)) [0, 1, 2, 3, 4, 5, 6, 7]"
  have len: "length ?F = 8" by simp
  from walk_padding [of ?F "''hero''" "''front''" "[]" "[]" 8] len
  have pad: "pad_walk 9 ?F = ?F @ [?F ! 7]"
    and tail: "walk_tail ''hero'' ''front'' 9 ?F ([], [])
        = ([] @ map (walk_name ''hero'' ''front'') [0..<9], [] @ ?F @ [?F ! 7])"
    and name: "walk_name ''hero'' ''front'' 8 = ''hero'' @ ''-'' @ ''front'' @ ''-walk-0008''"
    and same: "pad_walk 8 ?F = ?F"
    by simp_all
  have "(?F @ [?F ! 7]) ! 8 = solid 1 1 (7, 0, 0, 255)"
    by (simp add: nth_append)
  moreover have "map (walk_name ''hero'' ''front'') [0..<9] ! 8 = ''hero-front-walk-0008''"
    using name by simp
  ultimately show ?thesis using pad tail same len by simp
qed

text \<open>
  C10, as amended. The padding is never reached: when \<^verbatim>\<open>slice_frames\<close> returns, it
  returns \<open>max count 0\<close> frames, so \<open>count = 9\<close> with eight frames does not occur, the
  list is left as it is, and the direction adds one name and one frame per extracted
  frame. A run that gets through both loops has \<open>4 + 4 * max walk_frames 0\<close> names and as
  many frames.
\<close>

theorem padding_unreachable:
  "(slice_frames sheet frame_w frame_h row scol count = Inr frames \<longrightarrow>
      length frames = nat count
      \<and> \<not> (count = 9 \<and> length frames = 8)
      \<and> pad_walk count frames = frames
      \<and> walk_tail idt d count frames (ns, ims)
          = (ns @ map (walk_name idt d) [0..<nat count], ims @ frames))
   \<and> (build_name_and_frame_lists a sheet = Inr (names, images) \<longrightarrow>
      length names = 4 + 4 * nat (walk_frames a)
      \<and> length images = 4 + 4 * nat (walk_frames a))"
proof -
  have "length frames = nat count"
    if "slice_frames sheet frame_w frame_h row scol count = Inr frames"
    using that by (simp add: slice_frames_Inr)
  moreover have "length names = 4 + 4 * nat (walk_frames a)
      \<and> length images = 4 + 4 * nat (walk_frames a)"
    if "build_name_and_frame_lists a sheet = Inr (names, images)"
    using that by (simp add: build_Inr)
  ultimately show ?thesis
    by (auto simp: pad_walk_id walk_tail_eq)
qed

theorem padding_unreachable_witness:
  "map_sum id length (slice_frames (solid 8 8 (7, 7, 7, 255)) 2 2 10 1 9) = Inr 9
   \<and> map_sum id (\<lambda>r. (length (fst r), length (snd r)))
        (build_name_and_frame_lists (hero 2 9) (solid 8 8 (7, 7, 7, 255))) = Inr (40, 40)"
proof -
  let ?S = "solid 8 8 (7, 7, 7, 255)"
  obtain fs where fs: "slice_frames ?S 2 2 10 1 9 = Inr fs"
    using hero_boxes(2) [of 9 10] by (simp add: slice_frames_Inr)
  from hero_build [of 9 ?S] obtain names images
    where b: "build_name_and_frame_lists (hero 2 9) ?S = Inr (names, images)"
    by auto
  from padding_unreachable [of ?S 2 2 10 1 9 fs "''hero''" "''front''" "[]" "[]"
      "hero 2 9" names images] fs b
  have "length fs = 9" and "length names = 40" and "length images = 40"
    by (simp_all add: hero_def)
  with fs b show ?thesis by simp
qed

text \<open>
  The claim C10 as it is written, \<open>4 + 4 * walk_frames\<close> frames for every run, fails for
  a negative number of walk frames: \<^verbatim>\<open>range\<close> of a negative number is empty, so a run
  with \<open>walk_frames = - 1\<close> has the four static poses, not \<open>4 + 4 * (- 1) = 0\<close> frames.
\<close>

theorem padding_unreachable_counterexample:
  "map_sum id (\<lambda>r. int (length (snd r)))
     (build_name_and_frame_lists (hero 2 (- 1)) (solid 8 8 (7, 7, 7, 255))) = Inr 4
   \<and> 4 + 4 * walk_frames (hero 2 (- 1)) = 0
   \<and> slice_frames (solid 8 8 (7, 7, 7, 255)) 2 2 10 1 (- 1) = Inr []"
proof -
  let ?S = "solid 8 8 (7, 7, 7, 255)"
  from hero_build [of "- 1" ?S] obtain names images
    where b: "build_name_and_frame_lists (hero 2 (- 1)) ?S = Inr (names, images)"
    by auto
  then have "length images = 4" by (simp add: build_Inr hero_def)
  with b show ?thesis by (simp add: slice_frames_Inr hero_def)
qed

subsection \<open>The manifest and the pixels of the atlas\<close>

lemma update_fresh: "k \<notin> fst ` set al \<Longrightarrow> AList.update k v al = al @ [(k, v)]"
  by (induction al) auto

lemma frames_json_loop_fresh:
  "distinct (map fst kvs) \<Longrightarrow> fst ` set kvs \<inter> fst ` set fj = {} \<Longrightarrow>
   frames_json_loop kvs fj = fj @ map (\<lambda>p. (fst p, entry_of (snd p))) kvs"
proof (induction kvs arbitrary: fj)
  case Nil
  then show ?case by simp
next
  case (Cons p kvs)
  obtain k r where p: "p = (k, r)" by (cases p)
  from Cons.prems have fresh: "k \<notin> fst ` set fj" by (auto simp: p)
  from Cons.prems have "distinct (map fst kvs)"
    and "fst ` set kvs \<inter> fst ` set (fj @ [(k, entry_of r)]) = {}"
    by (auto simp: p)
  from Cons.IH [OF this] show ?case
    by (simp add: p update_fresh [OF fresh])
qed

lemma main_InrD:
  assumes "main a sheet = Inr (atlas, m)"
  obtains names images rects where
    "build_name_and_frame_lists a sheet = Inr (names, images)"
    "paste_frames_to_atlas images (frame_width a) (frame_height a) (atlas_cols a)
       = Inr (atlas, rects)"
    "m = \<lparr>js_frames = frames_json_loop (zip names rects) [], js_meta_image = ''atlas.png''\<rparr>"
  using assms by (auto simp: main_def split: sum.splits prod.splits)

lemma pix_paste:
  "pix (paste dst src (x, y)) px py
     = (if in_rect (x, y, im_width src, im_height src) (px, py) \<and> in_bounds dst px py
        then pix src (px - x) (py - y) else pix dst px py)"
  by (simp add: paste_def in_rect_def)

lemma in_bounds_paste [simp]: "in_bounds (paste dst src pos) px py = in_bounds dst px py"
  by (cases pos) (simp add: paste_def in_bounds_def)

lemma paste_loop_Cons:
  "ncols \<noteq> 0 \<Longrightarrow>
   paste_loop fw fh ncols (enumerate n (f # frames)) atlas rects
     = paste_loop fw fh ncols (enumerate (Suc n) frames)
         (paste atlas f (int n mod ncols * fw, int n div ncols * fh))
         (rects @ [cell_rect fw fh ncols n])"
  by (simp add: py_mod_def py_floordiv_def cell_rect_def Let_def)

lemma paste_loop_outside:
  assumes "ncols \<noteq> 0" and "\<forall>f \<in> set frames. im_size f = (fw, fh)"
    and "\<forall>j. n \<le> j \<and> j < n + length frames \<longrightarrow> \<not> in_rect (cell_rect fw fh ncols j) (px, py)"
    and "paste_loop fw fh ncols (enumerate n frames) atlas rects = Inr (atlas', rects')"
  shows "pix atlas' px py = pix atlas px py"
  using assms(2-)
proof (induction frames arbitrary: n atlas rects)
  case Nil
  then show ?case by simp
next
  case (Cons f frames)
  let ?atlas1 = "paste atlas f (int n mod ncols * fw, int n div ncols * fh)"
  from Cons.prems(1) have sz: "im_width f = fw" "im_height f = fh" and rest: "\<forall>f \<in> set frames. im_size f = (fw, fh)"
    by (simp_all add: im_size_def)
  from Cons.prems(2) have here: "\<not> in_rect (cell_rect fw fh ncols n) (px, py)"
    and later: "\<forall>j. Suc n \<le> j \<and> j < Suc n + length frames \<longrightarrow> \<not> in_rect (cell_rect fw fh ncols j) (px, py)"
    by simp_all
  from Cons.prems(3) [unfolded paste_loop_Cons [OF assms(1)]]
  have "paste_loop fw fh ncols (enumerate (Suc n) frames) ?atlas1
      (rects @ [cell_rect fw fh ncols n]) = Inr (atlas', rects')" .
  from Cons.IH [OF rest later this] have "pix atlas' px py = pix ?atlas1 px py" .
  also from here have "\<dots> = pix atlas px py"
    by (simp add: pix_paste sz cell_rect_def)
  finally show ?case .
qed

lemma paste_loop_inside:
  assumes "ncols \<noteq> 0" and "\<forall>f \<in> set frames. im_size f = (fw, fh)"
    and "k < length frames"
    and "in_rect (cell_rect fw fh ncols (n + k)) (px, py)"
    and "in_bounds atlas px py"
    and "paste_loop fw fh ncols (enumerate n frames) atlas rects = Inr (atlas', rects')"
  shows "pix atlas' px py
           = pix (frames ! k) (px - int (n + k) mod ncols * fw) (py - int (n + k) div ncols * fh)"
  using assms(2-)
proof (induction frames arbitrary: n k atlas rects)
  case Nil
  then show ?case by simp
next
  case (Cons f frames)
  let ?atlas1 = "paste atlas f (int n mod ncols * fw, int n div ncols * fh)"
  from Cons.prems(1) have sz: "im_width f = fw" "im_height f = fh" and rest: "\<forall>f \<in> set frames. im_size f = (fw, fh)"
    by (simp_all add: im_size_def)
  from Cons.prems(5) [unfolded paste_loop_Cons [OF assms(1)]]
  have loop: "paste_loop fw fh ncols (enumerate (Suc n) frames) ?atlas1
      (rects @ [cell_rect fw fh ncols n]) = Inr (atlas', rects')" .
  show ?case
  proof (cases k)
    case 0
    with Cons.prems(3) have here: "in_rect (cell_rect fw fh ncols n) (px, py)" by simp
    have "\<not> in_rect (cell_rect fw fh ncols j) (px, py)" if "Suc n \<le> j" for j
    proof
      assume "in_rect (cell_rect fw fh ncols j) (px, py)"
      with here have "rects_overlap (cell_rect fw fh ncols n) (cell_rect fw fh ncols j)"
        by (auto simp: rects_overlap_iff)
      then have "n = j" by (rule cell_rect_overlap_eq)
      with that show False by simp
    qed
    then have "\<forall>j. Suc n \<le> j \<and> j < Suc n + length frames
        \<longrightarrow> \<not> in_rect (cell_rect fw fh ncols j) (px, py)"
      by blast
    from paste_loop_outside [OF assms(1) rest this loop]
    have "pix atlas' px py = pix ?atlas1 px py" .
    also from here Cons.prems(4) have "\<dots> = pix f (px - int n mod ncols * fw) (py - int n div ncols * fh)"
      by (simp add: pix_paste sz cell_rect_def)
    finally show ?thesis by (simp add: 0)
  next
    case (Suc k')
    with Cons.prems have "k' < length frames"
      and "in_rect (cell_rect fw fh ncols (Suc n + k')) (px, py)"
      and "in_bounds ?atlas1 px py"
      by simp_all
    from Cons.IH [OF rest this loop] show ?thesis by (simp add: Suc)
  qed
qed


lemma cell_in_atlas:
  fixes ncols fw fh dx dy :: int and k n :: nat
  assumes c: "0 < ncols" and k: "k < n"
    and dx: "0 \<le> dx" "dx < fw" and dy: "0 \<le> dy" "dy < fh"
  shows "0 \<le> int k mod ncols * fw + dx"
    and "int k mod ncols * fw + dx < ncols * fw"
    and "0 \<le> int k div ncols * fh + dy"
    and "int k div ncols * fh + dy < (- ((- int n) div ncols)) * fh"
proof -
  let ?a = "int k mod ncols" and ?b = "int k div ncols" and ?rows = "- ((- int n) div ncols)"
  from c have a: "0 \<le> ?a" "?a + 1 \<le> ncols"
    using pos_mod_bound [OF c, of "int k"] pos_mod_sign [OF c, of "int k"] by linarith+
  from c have b: "0 \<le> ?b" by (simp add: pos_imp_zdiv_nonneg_iff)
  from dx dy have w: "0 \<le> fw" and h: "0 \<le> fh" by simp_all
  from a(1) w have "0 \<le> ?a * fw" by (rule mult_nonneg_nonneg)
  with dx show "0 \<le> ?a * fw + dx" by simp
  from a(2) w have "(?a + 1) * fw \<le> ncols * fw" by (rule mult_right_mono)
  with dx show "?a * fw + dx < ncols * fw" by (simp add: algebra_simps)
  from b h have "0 \<le> ?b * fh" by (rule mult_nonneg_nonneg)
  with dy show "0 \<le> ?b * fh + dy" by simp
  have "?b * ncols \<le> int k"
  proof -
    have "?b * ncols + ?a = int k" by simp
    with a(1) show ?thesis by linarith
  qed
  moreover have "int n \<le> ?rows * ncols"
  proof -
    have "(- int n) div ncols * ncols + (- int n) mod ncols = - int n" by simp
    moreover from c have "0 \<le> (- int n) mod ncols" by simp
    ultimately have "(- int n) div ncols * ncols \<le> - int n" by linarith
    then show ?thesis by (simp add: algebra_simps)
  qed
  ultimately have "?b * ncols < ?rows * ncols" using k by linarith
  with c have "?b < ?rows"
    using mult_less_cancel_right_pos [of ncols ?b ?rows] by blast
  then have "?b + 1 \<le> ?rows" by simp
  from this h have "(?b + 1) * fh \<le> ?rows * fh" by (rule mult_right_mono)
  with dy show "?b * fh + dy < ?rows * fh" by (simp add: algebra_simps)
qed


lemma pack_pixels:
  assumes r: "paste_frames_to_atlas frames fw fh ncols = Inr (atlas, rects)"
    and sz: "\<forall>f \<in> set frames. im_size f = (fw, fh)"
    and k: "k < length frames"
    and dx: "0 \<le> dx" "dx < fw" and dy: "0 \<le> dy" "dy < fh"
    and n: "int (length frames) < 2 ^ 53"
  shows "pixel_at atlas (int k mod ncols * fw + dx) (int k div ncols * fh + dy)
           = Some (pix (frames ! k) dx dy)"
    and "pixel_at (frames ! k) dx dy = Some (pix (frames ! k) dx dy)"
proof -
  let ?px = "int k mod ncols * fw + dx" and ?py = "int k div ncols * fh + dy"
  from r obtain rows where c0: "ncols \<noteq> 0"
    and rows: "ceil_truediv (int (length frames)) ncols = Inr rows"
    and new: "Image_new (ncols * fw, rows * fh) (0, 0, 0, 0)
        = Inr (solid (ncols * fw) (rows * fh) (0, 0, 0, 0))"
    and loop: "paste_loop fw fh ncols (enumerate 0 frames)
        (solid (ncols * fw) (rows * fh) (0, 0, 0, 0)) [] = Inr (atlas, rects)"
    and w: "im_width atlas = ncols * fw" and h: "im_height atlas = rows * fh"
    by (rule pack_InrD)
  let ?blank = "solid (ncols * fw) (rows * fh) (0, 0, 0, 0)"
  from new have width: "0 \<le> ncols * fw" "ncols * fw \<le> 536870910"
    by (simp_all add: Image_new_Inr)
  from dx have fw: "1 \<le> fw" by simp
  have c: "0 < ncols"
  proof (rule ccontr)
    assume "\<not> 0 < ncols"
    with c0 have "ncols < 0" by simp
    from this fw have "ncols * fw < 0" by (intro mult_neg_pos) simp_all
    with width(1) show False by simp
  qed
  from c fw have "ncols * 1 \<le> ncols * fw" by (intro mult_left_mono) simp_all
  with width(2) have "ncols < 2 ^ 1075" by simp
  with c n have "ceil_truediv (int (length frames)) ncols
      = Inr (- ((- int (length frames)) div ncols))"
    by (intro ceil_truediv_exact) simp_all
  with rows have rows_eq: "rows = - ((- int (length frames)) div ncols)" by simp
  note b = cell_in_atlas [OF c k dx dy, folded rows_eq]
  have inb: "in_bounds ?blank ?px ?py"
    using b by (simp add: in_bounds_def solid_def)
  have inr: "in_rect (cell_rect fw fh ncols (0 + k)) (?px, ?py)"
    using dx dy by (simp add: in_rect_def cell_rect_def)
  from paste_loop_inside [OF c0 sz k inr inb loop]
  have "pix atlas ?px ?py = pix (frames ! k) dx dy" by simp
  moreover from b w h have "in_bounds atlas ?px ?py"
    by (simp add: in_bounds_def)
  ultimately show "pixel_at atlas ?px ?py = Some (pix (frames ! k) dx dy)"
    by (simp add: pixel_at_def)
  from sz k have "im_size (frames ! k) = (fw, fh)" by simp
  with dx dy show "pixel_at (frames ! k) dx dy = Some (pix (frames ! k) dx dy)"
    by (simp add: pixel_at_def in_bounds_def im_size_def)
qed

lemma cell_at_size [simp]: "im_size (cell_at a sheet row col) = (frame_width a, frame_height a)"
  by (simp add: cell_at_def)

lemma build_InrD:
  assumes "build_name_and_frame_lists a sheet = Inr (names, frames)"
  shows "length names = length frames"
    and "distinct names"
    and "\<forall>f \<in> set frames. im_size f = (frame_width a, frame_height a)"
proof -
  note b = assms [unfolded build_Inr]
  from b show "length names = length frames" by simp
  from b show "distinct names" by (simp only: names_distinct)
  from b show "\<forall>f \<in> set frames. im_size f = (frame_width a, frame_height a)"
    by (auto simp: static_cell_def walk_cell_def)
qed

lemma manifest_frames:
  assumes "length names = length rects" and "distinct names"
  shows "frames_json_loop (zip names rects) [] = zip names (map entry_of rects)"
proof -
  from assms have "distinct (map fst (zip names rects))" by simp
  then have "frames_json_loop (zip names rects) []
      = [] @ map (\<lambda>p. (fst p, entry_of (snd p))) (zip names rects)"
    by (rule frames_json_loop_fresh) simp
  also have "\<dots> = zip names (map entry_of rects)"
    by (simp add: zip_map2 case_prod_beta)
  finally show ?thesis .
qed

text \<open>
  A run that gets through its crops has few frames: the boxes of the first and the last
  walk frame of a row both have C integers as their left edge.
\<close>

lemma build_length_bound:
  assumes b: "build_name_and_frame_lists a sheet = Inr (names, frames)"
    and w: "0 < frame_width a"
  shows "int (length frames) < 2 ^ 53"
proof (cases "0 < walk_frames a")
  case False
  with b have "length frames = 4" by (simp add: build_Inr)
  then show ?thesis by simp
next
  case True
  let ?n = "walk_frames a" and ?fw = "frame_width a" and ?sc = "start_col a"
  from b have ok: "\<forall>i < nat ?n.
      crop_check (frame_box ?fw (frame_height a) (front_row a) ?sc (int i)) = None"
    by (simp add: build_Inr)
  from True ok have "crop_check (frame_box ?fw (frame_height a) (front_row a) ?sc (int 0)) = None"
    by (intro ok [rule_format]) simp
  then have lo: "- (2 ^ 31) \<le> ?sc * ?fw"
    by (simp add: frame_box_eq crop_check_def c_int_def split: if_splits)
  from True have "nat ?n - 1 < nat ?n" by simp
  with ok have "crop_check (frame_box ?fw (frame_height a) (front_row a) ?sc
      (int (nat ?n - 1))) = None"
    by blast
  moreover from True have "int (nat ?n - 1) = ?n - 1" by simp
  ultimately have hi: "(?sc + (?n - 1)) * ?fw < 2 ^ 31"
    by (simp add: frame_box_eq crop_check_def c_int_def split: if_splits)
  have "(?sc + (?n - 1)) * ?fw = ?sc * ?fw + (?n - 1) * ?fw"
    by (simp add: algebra_simps)
  with lo hi have "(?n - 1) * ?fw < 2 ^ 32" by simp
  moreover from True w have "(?n - 1) * 1 \<le> (?n - 1) * ?fw"
    by (intro mult_left_mono) simp_all
  ultimately have "?n \<le> 2 ^ 32" by simp
  moreover from b True have "int (length frames) = 4 + 4 * ?n" by (simp add: build_Inr)
  ultimately show ?thesis by simp
qed

lemma main_returns:
  assumes "build_name_and_frame_lists a sheet = Inr (names, frames)"
    and "atlas_cols a \<noteq> 0"
    and "ceil_truediv (int (length frames)) (atlas_cols a) = Inr rows"
    and "Image_new (atlas_cols a * frame_width a, rows * frame_height a) (0, 0, 0, 0)
           = Inr blank"
  shows "\<exists>atlas m. main a sheet = Inr (atlas, m)"
proof -
  from pack_success [OF assms(2,3,4)] obtain atlas rects
    where "paste_frames_to_atlas frames (frame_width a) (frame_height a) (atlas_cols a)
        = Inr (atlas, rects)"
    by blast
  with assms(1) show ?thesis by (simp add: main_def)
qed

lemma hero_run: "\<exists>atlas m. main (hero 2 1) (gradient 8 24) = Inr (atlas, m)"
proof -
  from hero_build [of 1 "gradient 8 24"] obtain names frames
    where b: "build_name_and_frame_lists (hero 2 1) (gradient 8 24) = Inr (names, frames)"
    by auto
  then have "length frames = 8" by (simp add: build_Inr hero_def)
  then have rows: "ceil_truediv (int (length frames)) (atlas_cols (hero 2 1)) = Inr 1"
    using ceil_truediv_exact [of 8 10] by (simp add: hero_def)
  have new: "Image_new (atlas_cols (hero 2 1) * frame_width (hero 2 1),
        1 * frame_height (hero 2 1)) (0, 0, 0, 0) = Inr (solid 20 2 (0, 0, 0, 0))"
    by (simp add: Image_new_Inr hero_def)
  from main_returns [OF b _ rows new] show ?thesis by (simp add: hero_def)
qed

text \<open>
  C8. In every run that reaches the manifest, the names are pairwise different, so the
  manifest has one entry for each frame, with the names as its keys in the order in which
  the frames were extracted.
\<close>

theorem manifest_keys:
  assumes "main a sheet = Inr (atlas, m)"
  shows "\<exists>names frames.
           build_name_and_frame_lists a sheet = Inr (names, frames)
           \<and> distinct names
           \<and> map fst (js_frames m) = names
           \<and> length (js_frames m) = length frames"
proof -
  from assms obtain names frames rects
    where b: "build_name_and_frame_lists a sheet = Inr (names, frames)"
      and p: "paste_frames_to_atlas frames (frame_width a) (frame_height a) (atlas_cols a)
          = Inr (atlas, rects)"
      and m: "m = \<lparr>js_frames = frames_json_loop (zip names rects) [],
                    js_meta_image = ''atlas.png''\<rparr>"
    by (rule main_InrD)
  note bd = build_InrD [OF b]
  from p have "rects = map (cell_rect (frame_width a) (frame_height a) (atlas_cols a))
      [0..<length frames]"
    by (rule pack_InrD)
  then have "length rects = length frames" by simp
  with bd(1) have len: "length names = length rects" by simp
  from manifest_frames [OF len bd(2)] m
  have "js_frames m = zip names (map entry_of rects)" by simp
  with len bd(1) bd(2) b show ?thesis by simp
qed

theorem manifest_keys_witness:
  "map_sum id (\<lambda>r. map fst (js_frames (snd r))) (main (hero 2 1) (gradient 8 24))
     = Inr [''hero-front'', ''hero-back'', ''hero-left'', ''hero-right'',
            ''hero-front-walk-0000'', ''hero-back-walk-0000'',
            ''hero-left-walk-0000'', ''hero-right-walk-0000'']"
proof -
  from hero_run obtain atlas m where r: "main (hero 2 1) (gradient 8 24) = Inr (atlas, m)"
    by blast
  from manifest_keys [OF r] obtain names frames
    where "build_name_and_frame_lists (hero 2 1) (gradient 8 24) = Inr (names, frames)"
      and "map fst (js_frames m) = names"
    by blast
  then have "map fst (js_frames m)
      = [''hero-front'', ''hero-back'', ''hero-left'', ''hero-right'',
         ''hero-front-walk-0000'', ''hero-back-walk-0000'',
         ''hero-left-walk-0000'', ''hero-right-walk-0000'']"
    by (auto simp: build_Inr hero_def fmt_04d_0)
  with r show ?thesis by simp
qed

text \<open>
  C2. In every run that reaches the manifest, for every position \<open>k\<close> of the frame list:
  the manifest has an entry under the name at position \<open>k\<close>, and its \<^verbatim>\<open>frame\<close> is the
  rectangle that the packer returned for position \<open>k\<close>, its \<^verbatim>\<open>spriteSourceSize\<close> and
  \<^verbatim>\<open>sourceSize\<close> have the width and height of that rectangle, and it is neither rotated
  nor trimmed; the rectangle has the size of the frame; and every pixel of the frame is
  found in the atlas at the same offset from the corner of the rectangle.
\<close>

theorem atlas_round_trip:
  assumes "main a sheet = Inr (atlas, m)"
    and "build_name_and_frame_lists a sheet = Inr (names, frames)"
    and "k < length frames"
  shows "\<exists>rects x y w h e.
           paste_frames_to_atlas frames (frame_width a) (frame_height a) (atlas_cols a)
             = Inr (atlas, rects)
           \<and> rects ! k = (x, y, w, h)
           \<and> map_of (js_frames m) (names ! k) = Some e
           \<and> js_frame e = \<lparr>jx = x, jy = y, jw = w, jh = h\<rparr>
           \<and> js_rotated e = False
           \<and> js_trimmed e = False
           \<and> js_spriteSourceSize e = \<lparr>jx = 0, jy = 0, jw = w, jh = h\<rparr>
           \<and> js_sourceSize e = \<lparr>sw = w, sh = h\<rparr>
           \<and> im_size (frames ! k) = (w, h)
           \<and> (\<forall>dx dy. 0 \<le> dx \<and> dx < w \<and> 0 \<le> dy \<and> dy < h \<longrightarrow>
                 pixel_at atlas (x + dx) (y + dy) = Some (pix (frames ! k) dx dy)
                 \<and> pixel_at (frames ! k) dx dy = Some (pix (frames ! k) dx dy))"
proof -
  let ?fw = "frame_width a" and ?fh = "frame_height a" and ?c = "atlas_cols a"
  from assms(1) obtain names' frames' rects
    where "build_name_and_frame_lists a sheet = Inr (names', frames')"
      and "paste_frames_to_atlas frames' ?fw ?fh ?c = Inr (atlas, rects)"
      and "m = \<lparr>js_frames = frames_json_loop (zip names' rects) [],
                 js_meta_image = ''atlas.png''\<rparr>"
    by (rule main_InrD)
  with assms(2) have p: "paste_frames_to_atlas frames ?fw ?fh ?c = Inr (atlas, rects)"
    and m: "m = \<lparr>js_frames = frames_json_loop (zip names rects) [],
                  js_meta_image = ''atlas.png''\<rparr>"
    by simp_all
  note bd = build_InrD [OF assms(2)]
  from p have rects: "rects = map (cell_rect ?fw ?fh ?c) [0..<length frames]"
    by (rule pack_InrD)
  then have len: "length names = length rects" using bd(1) by simp
  from rects assms(3) have rk: "rects ! k
      = (int k mod ?c * ?fw, int k div ?c * ?fh, ?fw, ?fh)"
    by (simp add: cell_rect_def)
  from manifest_frames [OF len bd(2)] m
  have "js_frames m = zip names (map entry_of rects)" by simp
  moreover from len bd(1) bd(2) assms(3)
  have "map_of (zip names (map entry_of rects)) (names ! k) = Some (map entry_of rects ! k)"
    by (intro map_of_zip_nth) simp_all
  ultimately have e: "map_of (js_frames m) (names ! k) = Some (entry_of (rects ! k))"
    using len bd(1) assms(3) by simp
  from bd(3) assms(3) have s: "im_size (frames ! k) = (?fw, ?fh)" by simp
  have "pixel_at atlas (int k mod ?c * ?fw + dx) (int k div ?c * ?fh + dy)
          = Some (pix (frames ! k) dx dy)
        \<and> pixel_at (frames ! k) dx dy = Some (pix (frames ! k) dx dy)"
    if "0 \<le> dx" "dx < ?fw" "0 \<le> dy" "dy < ?fh" for dx dy
  proof -
    from that(1,2) have "0 < ?fw" by simp
    with assms(2) have "int (length frames) < 2 ^ 53" by (rule build_length_bound)
    from pack_pixels [OF p bd(3) assms(3) that this] show ?thesis by simp
  qed
  with p rk e s show ?thesis by (auto simp: entry_of_def)
qed

theorem atlas_round_trip_witness:
  "map_sum id (\<lambda>r. (pixel_at (fst r) 3 1,
                     map_option js_frame (map_of (js_frames (snd r)) ''hero-back'')))
     (main (hero 2 1) (gradient 8 24))
     = Inr (Some (1, 17, 0, 255), Some \<lparr>jx = 2, jy = 0, jw = 2, jh = 2\<rparr>)"
proof -
  let ?a = "hero 2 1" and ?G = "gradient 8 24"
  from hero_run obtain atlas m where r: "main ?a ?G = Inr (atlas, m)"
    by blast
  from hero_build [of 1 ?G] obtain names frames
    where b: "build_name_and_frame_lists ?a ?G = Inr (names, frames)"
    by auto
  then have n: "names ! 1 = ''hero-back''" and f: "frames ! 1 = static_cell ?a ?G 8"
    and l: "length frames = 8"
    by (simp_all add: build_Inr hero_def)
  from l have k: "1 < length frames" by simp
  from atlas_round_trip [OF r b k] obtain rects x y w h e
    where p: "paste_frames_to_atlas frames (frame_width ?a) (frame_height ?a) (atlas_cols ?a)
        = Inr (atlas, rects)"
      and rk: "rects ! 1 = (x, y, w, h)"
      and e: "map_of (js_frames m) (names ! 1) = Some e"
      and ef: "js_frame e = \<lparr>jx = x, jy = y, jw = w, jh = h\<rparr>"
      and px: "\<forall>dx dy. 0 \<le> dx \<and> dx < w \<and> 0 \<le> dy \<and> dy < h \<longrightarrow>
                 pixel_at atlas (x + dx) (y + dy) = Some (pix (frames ! 1) dx dy)
                 \<and> pixel_at (frames ! 1) dx dy = Some (pix (frames ! 1) dx dy)"
    by blast
  from p have "rects = map (cell_rect (frame_width ?a) (frame_height ?a) (atlas_cols ?a))
      [0..<length frames]"
    by (rule pack_InrD)
  with l rk have xy: "x = 2" "y = 0" "w = 2" "h = 2"
    by (simp_all add: cell_rect_def hero_def)
  from px [rule_format, of 1 1] xy have "pixel_at atlas 3 1 = Some (pix (frames ! 1) 1 1)"
    by simp
  also have "pix (frames ! 1) 1 1 = (1, 17, 0, 255)"
    unfolding f
    by (simp add: static_cell_def cell_at_def crop_region_def in_bounds_def gradient_def
          hero_def)
  finally have "pixel_at atlas 3 1 = Some (1, 17, 0, 255)" .
  moreover from e ef n xy
  have "map_option js_frame (map_of (js_frames m) ''hero-back'')
      = Some \<lparr>jx = 2, jy = 0, jw = 2, jh = 2\<rparr>"
    by simp
  ultimately show ?thesis using r by simp
qed

end
